theory Spec2Isabelle
  imports Main "HOL-Library.Sublist" "HOL-Library.FSet"
begin

section \<open>Python strings\<close>

text \<open>
  Python strings are modelled as \<open>string\<close>: a list of characters with codes 0 to 255,
  read as the code points of Latin-1. The helpers below are the string methods the
  notebook calls, restricted to that range.
\<close>

definition py_isspace :: "char \<Rightarrow> bool" where
  \<comment> \<open>\<open>str.isspace\<close> on one character: the white space of \<open>str.strip()\<close> and \<open>str.split()\<close>.\<close>
  "py_isspace c =
     (c \<in> set [CHR 0x09, CHR 0x0A, CHR 0x0B, CHR 0x0C, CHR 0x0D, CHR 0x1C, CHR 0x1D,
                CHR 0x1E, CHR 0x1F, CHR 0x20, CHR 0x85, CHR 0xA0])"

definition py_strip :: "string \<Rightarrow> string" where
  \<comment> \<open>\<open>s.strip()\<close>\<close>
  "py_strip s = rev (dropWhile py_isspace (rev (dropWhile py_isspace s)))"

fun py_split :: "string \<Rightarrow> string list" where
  \<comment> \<open>\<open>s.split()\<close>: the maximal runs of characters that are not white space.\<close>
  "py_split [] = []"
| "py_split (c # cs) =
     (if py_isspace c then py_split cs
      else (case py_split cs of
              [] \<Rightarrow> [[c]]
            | w # ws \<Rightarrow>
                (case cs of
                   [] \<Rightarrow> [[c]]
                 | d # _ \<Rightarrow> if py_isspace d then [c] # w # ws else (c # w) # ws)))"

fun py_join :: "string \<Rightarrow> string list \<Rightarrow> string" where
  \<comment> \<open>\<open>sep.join(parts)\<close>\<close>
  "py_join sep [] = []"
| "py_join sep [x] = x"
| "py_join sep (x # y # ys) = x @ sep @ py_join sep (y # ys)"

definition startswith :: "string \<Rightarrow> string \<Rightarrow> bool" where
  \<comment> \<open>\<open>s.startswith(p)\<close>\<close>
  "startswith s p = prefix p s"

definition split_hash :: "string \<Rightarrow> string" where
  \<comment> \<open>\<open>s.split('#')[0]\<close>: the part of \<open>s\<close> before its first \<open>#\<close>.\<close>
  "split_hash s = takeWhile (\<lambda>c. c \<noteq> CHR ''#'') s"

section \<open>\<open>urlparse(url).netloc\<close>\<close>

text \<open>
  \<open>get_domain\<close> returns \<open>urlparse(url).netloc\<close>. The library function is modelled
  after \<open>urllib.parse.urlsplit\<close> of the Python release the notebook names (3.10):
  leading C0 control characters and spaces are dropped, tab, carriage return and line
  feed are removed, a scheme (a letter followed by scheme characters, up to the first
  colon) is split off, and when the rest starts with \<open>//\<close> the network location runs up
  to the first of \<open>/\<close>, \<open>?\<close> and \<open>#\<close>. A network location with one kind of square
  bracket but not the other raises \<open>ValueError\<close>, which is \<open>None\<close> here. A network
  location with both brackets is validated further by the later releases (the host
  between the brackets must be an IPv6 or IPvFuture address, as the \<open>ipaddress\<close> module
  reads it), and raises \<open>ValueError\<close> when the validation fails: that validation is the
  parameter \<open>bracket_ok\<close>, which a release without it answers with \<open>True\<close>. The last
  check of \<open>urlsplit\<close>, on what NFKC normalisation makes of the network location,
  rejects no character with a code below 256.
\<close>

definition ord :: "char \<Rightarrow> nat" where
  \<comment> \<open>\<open>ord(c)\<close>: the code point of a character\<close>
  "ord c = of_char c"

definition ascii_alpha :: "char \<Rightarrow> bool" where
  "ascii_alpha c = ((97 \<le> ord c \<and> ord c \<le> 122) \<or> (65 \<le> ord c \<and> ord c \<le> 90))"

definition scheme_char :: "char \<Rightarrow> bool" where
  "scheme_char c = (ascii_alpha c \<or> (48 \<le> ord c \<and> ord c \<le> 57) \<or> c \<in> set ''+-.'')"

definition strip_scheme :: "string \<Rightarrow> string" where
  \<comment> \<open>What \<open>urlsplit\<close> keeps of the url after it has split off the scheme, if there is one.\<close>
  "strip_scheme url =
     (let pre = takeWhile (\<lambda>c. c \<noteq> CHR '':'') url in
      if CHR '':'' \<in> set url \<and> pre \<noteq> [] \<and> ascii_alpha (hd pre) \<and> list_all scheme_char pre
      then drop (length pre + 1) url
      else url)"

definition netloc_delim :: "char \<Rightarrow> bool" where
  "netloc_delim c = (c \<in> set ''/?#'')"

definition urlparse_netloc :: "(string \<Rightarrow> bool) \<Rightarrow> string \<Rightarrow> string option" where
  "urlparse_netloc bracket_ok url0 =
     (let url1 = dropWhile (\<lambda>c. ord c \<le> 32) url0;
          url2 = filter (\<lambda>c. c \<notin> set [CHR 0x09, CHR 0x0D, CHR 0x0A]) url1;
          rest = strip_scheme url2
      in if take 2 rest = ''//''
         then (let netloc = takeWhile (\<lambda>c. \<not> netloc_delim c) (drop 2 rest) in
               if (CHR ''['' \<in> set netloc) \<noteq> (CHR '']'' \<in> set netloc) then None
               else if CHR ''['' \<in> set netloc \<and> \<not> bracket_ok netloc then None
               else Some netloc)
         else Some [])"

section \<open>The parsed document\<close>

text \<open>
  \<open>BeautifulSoup(html, 'html.parser')\<close> builds a tree of tags and strings. The library
  is not part of the repository; the tree is modelled as a datatype and the parser is a
  parameter of the model (see \<open>env\<close> below). A \<open>Tag\<close> has a name, its attributes
  (each with its value as written in the markup) and its children; a
  \<open>NavigableString\<close> is a piece of text (or a CDATA section); \<open>Comment\<close> stands for
  the strings that \<open>get_text\<close> leaves out everywhere (comments, declarations, doctypes).
  A \<open>ContainerString\<close> is a string inside \<open>rt\<close>, \<open>rp\<close>, \<open>style\<close>, \<open>script\<close> or
  \<open>template\<close>, for which the tree builder keeps a class of its own; it carries the name of
  that tag. The \<open>get_text\<close> of such a tag returns the strings of its class and no other,
  and the \<open>get_text\<close> of any other tag leaves them out. The document itself is a tag, as
  the \<open>BeautifulSoup\<close> object is.
\<close>

datatype node =
    Tag (name: string) (attrs: "(string \<times> string) list") (contents: "node list")
  | NavigableString string
  | Comment string
  | ContainerString string string

fun tag_named :: "string list \<Rightarrow> node \<Rightarrow> bool" where
  \<comment> \<open>a tag whose name is one of \<open>names\<close>; a string's \<open>.name\<close> is \<open>None\<close>\<close>
  "tag_named names (Tag n a cs) = (n \<in> set names)"
| "tag_named names _ = False"

fun truthy :: "node \<Rightarrow> bool" where
  \<comment> \<open>Python truth of a tree node: a tag is always true, a string is true when not empty.\<close>
  "truthy (Tag n a cs) = True"
| "truthy (NavigableString s) = (s \<noteq> [])"
| "truthy (Comment s) = (s \<noteq> [])"
| "truthy (ContainerString k s) = (s \<noteq> [])"

text \<open>
  \<open>walk\<close> lists the nodes below a list of siblings in document order, each with the
  siblings that follow it (what repeated \<open>.next_sibling\<close> reaches from it).
\<close>

fun walk :: "node list \<Rightarrow> (node \<times> node list) list" where
  "walk [] = []"
| "walk (Tag n a cs # rest) = (Tag n a cs, rest) # walk cs @ walk rest"
| "walk (x # rest) = (x, rest) # walk rest"

fun descendants_ctx :: "node \<Rightarrow> (node \<times> node list) list" where
  "descendants_ctx (Tag n a cs) = walk cs"
| "descendants_ctx _ = []"

definition descendants :: "node \<Rightarrow> node list" where
  "descendants n = map fst (descendants_ctx n)"

definition find_all :: "node \<Rightarrow> string list \<Rightarrow> node list" where
  \<comment> \<open>\<open>n.find_all(names)\<close>: the tags below \<open>n\<close> with one of the names, in document order.\<close>
  "find_all n names = filter (tag_named names) (descendants n)"

definition find_all_ctx :: "node \<Rightarrow> string list \<Rightarrow> (node \<times> node list) list" where
  \<comment> \<open>as \<open>find_all\<close>, each tag with its following siblings\<close>
  "find_all_ctx n names = filter (\<lambda>(d, sibs). tag_named names d) (descendants_ctx n)"

definition find_first :: "node \<Rightarrow> string \<Rightarrow> node option" where
  \<comment> \<open>\<open>n.find(name)\<close>: the first such tag, or \<open>None\<close>.\<close>
  "find_first n nm = (case find_all n [nm] of [] \<Rightarrow> None | t # _ \<Rightarrow> Some t)"

definition kept :: "bool \<Rightarrow> string \<Rightarrow> string list" where
  \<comment> \<open>a string that \<open>get_text\<close> has chosen: with \<open>strip\<close> it is stripped, and dropped when
      that leaves nothing\<close>
  "kept strip s = (if strip then (let v = py_strip s in if v = [] then [] else [v]) else [s])"

fun own_strings :: "string \<Rightarrow> bool \<Rightarrow> node \<Rightarrow> string list" where
  \<comment> \<open>what a node below the tag named \<open>n\<close> gives to the \<open>get_text\<close> of that tag\<close>
  "own_strings n strip (NavigableString s) =
     (if n \<in> set [''rt'', ''rp'', ''style'', ''script'', ''template''] then [] else kept strip s)"
| "own_strings n strip (ContainerString k s) = (if n = k then kept strip s else [])"
| "own_strings n strip _ = []"

fun all_strings :: "bool \<Rightarrow> node \<Rightarrow> string list" where
  \<comment> \<open>the strings \<open>get_text\<close> joins: those below a tag, or the string itself when the
      node is a string of the plain class and it is not empty\<close>
  "all_strings strip (Tag n a cs) =
     concat (map (own_strings n strip) (descendants (Tag n a cs)))"
| "all_strings strip (NavigableString s) =
     (let v = (if strip then py_strip s else s) in if v = [] then [] else [v])"
| "all_strings strip (Comment s) = []"
| "all_strings strip (ContainerString k s) = []"

definition get_text :: "string \<Rightarrow> bool \<Rightarrow> node \<Rightarrow> string" where
  \<comment> \<open>\<open>n.get_text(sep, strip=...)\<close>\<close>
  "get_text sep strip n = py_join sep (all_strings strip n)"

definition get_attr :: "node \<Rightarrow> string \<Rightarrow> string option" where
  "get_attr n k = map_of (attrs n) k"

section \<open>The environment of a run\<close>

text \<open>
  What the notebook takes from outside: the responses of the web server, the HTML
  parser, the order in which \<open>list(set(links))\<close> lists a set, and the validation of
  bracketed hosts by \<open>urlsplit\<close>. The responses are fixed for a run: a URL that is
  requested twice gets the same answer twice.
\<close>

record env =
  fetch :: "string \<Rightarrow> string option"
    \<comment> \<open>the body \<open>requests.get\<close> returns for a URL; \<open>None\<close> for a transport error,
        a timeout or a status that \<open>raise_for_status\<close> rejects\<close>
  parse :: "string \<Rightarrow> node option"
    \<comment> \<open>\<open>BeautifulSoup(html, 'html.parser')\<close>; \<open>None\<close> when the parser raises\<close>
  set_order :: "string list \<Rightarrow> string list"
    \<comment> \<open>\<open>list(set(xs))\<close>: Python does not fix the order\<close>
  bracket_ok :: "string \<Rightarrow> bool"
    \<comment> \<open>whether \<open>urlsplit\<close> accepts a network location that has both square brackets\<close>

definition lists_set :: "(string list \<Rightarrow> string list) \<Rightarrow> bool" where
  \<comment> \<open>what Python guarantees of \<open>list(set(xs))\<close>: each element of \<open>xs\<close> once\<close>
  "lists_set f = (\<forall>xs. distinct (f xs) \<and> set (f xs) = set xs)"

section \<open>Link extraction\<close>

definition get_domain :: "env \<Rightarrow> string \<Rightarrow> string option" where
  \<comment> \<open>\<open>urlparse(url).netloc\<close>; \<open>None\<close> when \<open>urlparse\<close> raises\<close>
  "get_domain e url = urlparse_netloc (bracket_ok e) url"

definition fetch_url :: "env \<Rightarrow> string \<Rightarrow> string option" where
  "fetch_url e url = fetch e url"

text \<open>
  One pass of the loop of \<open>extract_links\<close> over an anchor's \<open>href\<close>: \<open>None\<close> when
  \<open>get_domain(href)\<close> raises, otherwise the list of links with the href appended or not.
\<close>

definition resolve_href :: "string \<Rightarrow> string \<Rightarrow> string option" where
  \<comment> \<open>the href after the conversion of the loop body, \<open>None\<close> for \<open>continue\<close>\<close>
  "resolve_href domain href =
     (if startswith href ''/'' then Some (''https://'' @ domain @ href)
      else if \<not> (startswith href ''http://'' \<or> startswith href ''https://'') then None
      else Some href)"

fun links_loop :: "env \<Rightarrow> string \<Rightarrow> string list \<Rightarrow> string list \<Rightarrow> string list option" where
  "links_loop e domain [] links = Some links"
| "links_loop e domain (href # hrefs) links =
     (case resolve_href domain href of
        None \<Rightarrow> links_loop e domain hrefs links
      | Some h \<Rightarrow>
          (case get_domain e h of
             None \<Rightarrow> None
           | Some d \<Rightarrow> links_loop e domain hrefs (if d = domain then links @ [h] else links)))"

definition anchor_hrefs :: "node \<Rightarrow> string list" where
  \<comment> \<open>\<open>a_tag['href']\<close> for each tag of \<open>soup.find_all('a', href=True)\<close>\<close>
  "anchor_hrefs soup =
     concat (map (\<lambda>a. case get_attr a ''href'' of None \<Rightarrow> [] | Some h \<Rightarrow> [h])
                 (find_all soup [''a'']))"

definition extract_links :: "env \<Rightarrow> string \<Rightarrow> string \<Rightarrow> string list option" where
  \<comment> \<open>\<open>None\<close>: the call raises (the parser, or \<open>urlparse\<close> on the base or on a link)\<close>
  "extract_links e html base_url =
     (case parse e html of
        None \<Rightarrow> None
      | Some soup \<Rightarrow>
          (case get_domain e base_url of
             None \<Rightarrow> None
           | Some domain \<Rightarrow>
               (case links_loop e domain (anchor_hrefs soup) [] of
                  None \<Rightarrow> None
                | Some links \<Rightarrow> Some (set_order e links))))"


section \<open>Sections and their text form\<close>

text \<open>
  A section is the dictionary \<open>{'header': h, 'text': t}\<close> or \<open>{'text': t}\<close> that
  \<open>extract_content\<close> appends to \<open>sections\<close>.
\<close>

record py_section =
  header :: "string option"
  sec_text :: string

text \<open>
  \<open>repr\<close> of a string, as CPython writes it: double quotes when the string has a single
  quote and no double quote, single quotes otherwise; the quote and the backslash
  escaped; tab, line feed and carriage return as \<open>\t\<close>, \<open>\n\<close>, \<open>\r\<close>; every other character
  that is not printable as \<open>\xhh\<close>.
\<close>

definition squote :: char where "squote = CHR 0x27"
definition dquote :: char where "dquote = CHR 0x22"
definition backslash :: char where "backslash = CHR 0x5C"

definition py_printable :: "char \<Rightarrow> bool" where
  \<comment> \<open>\<open>str.isprintable\<close> on the code points below 256\<close>
  "py_printable c = ((32 \<le> ord c \<and> ord c < 127) \<or> (161 \<le> ord c \<and> ord c \<noteq> 173))"

definition hexdigit :: "nat \<Rightarrow> char" where
  "hexdigit k = ''0123456789abcdef'' ! k"

definition repr_quote :: "string \<Rightarrow> char" where
  "repr_quote s = (if squote \<in> set s \<and> dquote \<notin> set s then dquote else squote)"

definition repr_char :: "char \<Rightarrow> char \<Rightarrow> string" where
  "repr_char q c =
     (if c = q \<or> c = backslash then [backslash, c]
      else if c = CHR 0x09 then [backslash, CHR ''t'']
      else if c = CHR 0x0A then [backslash, CHR ''n'']
      else if c = CHR 0x0D then [backslash, CHR ''r'']
      else if py_printable c then [c]
      else [backslash, CHR ''x'', hexdigit (ord c div 16), hexdigit (ord c mod 16)])"

definition py_repr :: "string \<Rightarrow> string" where
  "py_repr s = (let q = repr_quote s in [q] @ concat (map (repr_char q) s) @ [q])"

definition repr_section :: "py_section \<Rightarrow> string" where
  \<comment> \<open>\<open>str\<close> of one section dictionary, keys in insertion order\<close>
  "repr_section sec =
     (case header sec of
        Some h \<Rightarrow> ''{'' @ py_repr ''header'' @ '': '' @ py_repr h @ '', '' @ py_repr ''text'' @ '': ''
                    @ py_repr (sec_text sec) @ ''}''
      | None \<Rightarrow> ''{'' @ py_repr ''text'' @ '': '' @ py_repr (sec_text sec) @ ''}'')"

definition str_content_dict :: "py_section list \<Rightarrow> string" where
  \<comment> \<open>\<open>str({'sections': sections})\<close>\<close>
  "str_content_dict sections =
     ''{'' @ py_repr ''sections'' @ '': ['' @ py_join '', '' (map repr_section sections) @ '']}''"

text \<open>
  \<open>eval\<close> is modelled on the texts that \<open>str\<close> gives for such a dictionary: a
  dictionary with the key \<open>'sections'\<close> and a list of section dictionaries, with string
  literals in either quote and the escapes above. On any other text the model raises
  (\<open>None\<close>), where Python may evaluate it: \<open>main\<close> passes to \<open>eval\<close> only what
  \<open>extract_content\<close> returned.
\<close>

definition hexval :: "char \<Rightarrow> nat option" where
  "hexval c =
     (if 48 \<le> ord c \<and> ord c \<le> 57 then Some (ord c - 48)
      else if 97 \<le> ord c \<and> ord c \<le> 102 then Some (ord c - 87)
      else if 65 \<le> ord c \<and> ord c \<le> 70 then Some (ord c - 55)
      else None)"

definition raw_ok :: "char \<Rightarrow> bool" where
  \<comment> \<open>a character a string literal may hold as it is\<close>
  "raw_ok c = (c \<notin> set [CHR 0x00, CHR 0x0A, CHR 0x0D])"

fun str_body :: "char \<Rightarrow> string \<Rightarrow> (string \<times> string) option" where
  \<comment> \<open>the text of a literal after its opening quote \<open>q\<close>, and what follows the closing quote\<close>
  "str_body q [] = None"
| "str_body q (c # cs) =
     (if c = q then Some ([], cs)
      else if c = backslash then
        (case cs of
           [] \<Rightarrow> None
         | e # cs' \<Rightarrow>
             if e = CHR ''x'' then
               (case cs' of
                  h1 # h2 # cs'' \<Rightarrow>
                    (case (hexval h1, hexval h2) of
                       (Some a, Some b) \<Rightarrow>
                         map_option (\<lambda>(v, r). (char_of (16 * a + b) # v, r)) (str_body q cs'')
                     | _ \<Rightarrow> None)
                | _ \<Rightarrow> None)
             else
               (case (if e = backslash \<or> e = squote \<or> e = dquote then Some e
                      else if e = CHR ''t'' then Some (CHR 0x09)
                      else if e = CHR ''n'' then Some (CHR 0x0A)
                      else if e = CHR ''r'' then Some (CHR 0x0D)
                      else None) of
                  None \<Rightarrow> None
                | Some d \<Rightarrow> map_option (\<lambda>(v, r). (d # v, r)) (str_body q cs')))
      else if raw_ok c then map_option (\<lambda>(v, r). (c # v, r)) (str_body q cs)
      else None)"

definition eval_str :: "string \<Rightarrow> (string \<times> string) option" where
  \<comment> \<open>a string literal at the head of the text: its value and the rest\<close>
  "eval_str s =
     (case s of
        [] \<Rightarrow> None
      | q # cs \<Rightarrow> if q = squote \<or> q = dquote then str_body q cs else None)"

definition expect :: "string \<Rightarrow> string \<Rightarrow> string option" where
  \<comment> \<open>the text after the token \<open>p\<close>, if the text starts with it\<close>
  "expect p s = (if prefix p s then Some (drop (length p) s) else None)"

definition eval_key :: "string \<Rightarrow> string \<Rightarrow> string option" where
  \<comment> \<open>the key \<open>k\<close> as a string literal, followed by a colon and a space\<close>
  "eval_key k s =
     (case eval_str s of
        None \<Rightarrow> None
      | Some (v, r) \<Rightarrow> if v = k then expect '': '' r else None)"

definition eval_section :: "string \<Rightarrow> (py_section \<times> string) option" where
  "eval_section s =
     (case expect ''{'' s of
        None \<Rightarrow> None
      | Some r0 \<Rightarrow>
          (case eval_key ''header'' r0 of
             Some r1 \<Rightarrow>
               (case eval_str r1 of
                  None \<Rightarrow> None
                | Some (h, r2) \<Rightarrow>
                    (case expect '', '' r2 of
                       None \<Rightarrow> None
                     | Some r3 \<Rightarrow>
                         (case eval_key ''text'' r3 of
                            None \<Rightarrow> None
                          | Some r4 \<Rightarrow>
                              (case eval_str r4 of
                                 None \<Rightarrow> None
                               | Some (t, r5) \<Rightarrow>
                                   map_option (\<lambda>r. (\<lparr>header = Some h, sec_text = t\<rparr>, r))
                                     (expect ''}'' r5)))))
           | None \<Rightarrow>
               (case eval_key ''text'' r0 of
                  None \<Rightarrow> None
                | Some r1 \<Rightarrow>
                    (case eval_str r1 of
                       None \<Rightarrow> None
                     | Some (t, r2) \<Rightarrow>
                         map_option (\<lambda>r. (\<lparr>header = None, sec_text = t\<rparr>, r)) (expect ''}'' r2)))))"

text \<open>
  The sections of a list, after its opening bracket. The first argument bounds the number
  of sections read; \<open>eval_content\<close> passes the length of the text, which no list in it
  exceeds.
\<close>

fun eval_sections :: "nat \<Rightarrow> string \<Rightarrow> (py_section list \<times> string) option" where
  "eval_sections 0 s = None"
| "eval_sections (Suc n) s =
     (case eval_section s of
        None \<Rightarrow> None
      | Some (sec, r) \<Rightarrow>
          (case expect '']'' r of
             Some r' \<Rightarrow> Some ([sec], r')
           | None \<Rightarrow>
               (case expect '', '' r of
                  None \<Rightarrow> None
                | Some r' \<Rightarrow> map_option (\<lambda>(secs, r''). (sec # secs, r'')) (eval_sections n r'))))"

definition eval_content :: "string \<Rightarrow> py_section list option" where
  \<comment> \<open>\<open>eval(content).get('sections', [])\<close>; \<open>None\<close> when \<open>eval\<close> raises\<close>
  "eval_content s =
     (case expect ''{'' s of
        None \<Rightarrow> None
      | Some r0 \<Rightarrow>
          (case eval_key ''sections'' r0 of
             None \<Rightarrow> None
           | Some r1 \<Rightarrow>
               (case expect ''['' r1 of
                  None \<Rightarrow> None
                | Some r2 \<Rightarrow>
                    (case expect '']}'' r2 of
                       Some r3 \<Rightarrow> if r3 = [] then Some [] else None
                     | None \<Rightarrow>
                         (case eval_sections (length s) r2 of
                            None \<Rightarrow> None
                          | Some (secs, r3) \<Rightarrow> if r3 = ''}'' then Some secs else None)))))"

section \<open>Content extraction\<close>

definition noise_tags :: "string list" where
  "noise_tags = [''nav'', ''header'', ''footer'', ''script'', ''style'', ''noscript'',
                 ''iframe'', ''svg'', ''aside'', ''form'']"

fun decompose_all :: "string list \<Rightarrow> node \<Rightarrow> node" where
  \<comment> \<open>\<open>for element in soup.find_all(names): element.decompose()\<close>\<close>
  "decompose_all names (Tag n a cs) =
     Tag n a (map (decompose_all names) (filter (\<lambda>c. \<not> tag_named names c) cs))"
| "decompose_all names x = x"

definition title_of :: "node \<Rightarrow> string" where
  "title_of soup =
     (case find_first soup ''title'' of
        Some title_tag \<Rightarrow> get_text [] True title_tag
      | None \<Rightarrow>
          (case find_first soup ''h1'' of
             Some h1_tag \<Rightarrow> get_text [] True h1_tag
           | None \<Rightarrow> []))"

type_synonym selector = "string \<times> (string \<times> string list) list"

definition main_content_tags :: "selector list" where
  \<comment> \<open>each selector: its \<open>'tag'\<close> and the items of its \<open>'attrs'\<close>\<close>
  "main_content_tags =
     [(''div'', [(''id'', [''content'', ''main-content'', ''mainContent'', ''main''])]),
      (''main'', []),
      (''article'', []),
      (''div'', [(''class'', [''content'', ''main-content'', ''main'', ''article'', ''post''])])]"

definition attr_matches :: "string \<Rightarrow> string \<Rightarrow> node \<Rightarrow> bool" where
  \<comment> \<open>the filter \<open>lambda x: x and value in x.split() if x else False\<close> on the attribute\<close>
  "attr_matches attr_name value n =
     (case get_attr n attr_name of
        None \<Rightarrow> False
      | Some x \<Rightarrow> x \<noteq> [] \<and> value \<in> set (py_split x))"

definition text_len :: "node \<Rightarrow> nat" where
  "text_len n = length (get_text [] True n)"

fun py_max :: "('a \<Rightarrow> nat) \<Rightarrow> 'a \<Rightarrow> 'a list \<Rightarrow> 'a" where
  \<comment> \<open>\<open>max(best :: xs, key=f)\<close>: the first element with the greatest key\<close>
  "py_max f best [] = best"
| "py_max f best (x # xs) = py_max f (if f best < f x then x else best) xs"

fun try_values :: "node \<Rightarrow> string \<Rightarrow> string \<Rightarrow> string list \<Rightarrow> node option" where
  \<comment> \<open>\<open>for value in attr_values\<close>\<close>
  "try_values soup tag attr_name [] = None"
| "try_values soup tag attr_name (value # vs) =
     (case filter (attr_matches attr_name value) (find_all soup [tag]) of
        [] \<Rightarrow> try_values soup tag attr_name vs
      | el # els \<Rightarrow> Some (py_max text_len el els))"

fun try_attrs :: "node \<Rightarrow> string \<Rightarrow> (string \<times> string list) list \<Rightarrow> node option" where
  \<comment> \<open>\<open>for attr_name, attr_values in attrs.items()\<close>\<close>
  "try_attrs soup tag [] = None"
| "try_attrs soup tag ((attr_name, attr_values) # rest) =
     (case try_values soup tag attr_name attr_values of
        Some el \<Rightarrow> Some el
      | None \<Rightarrow> try_attrs soup tag rest)"

fun try_selectors :: "node \<Rightarrow> selector list \<Rightarrow> node option" where
  \<comment> \<open>\<open>for selector in main_content_tags\<close>\<close>
  "try_selectors soup [] = None"
| "try_selectors soup ((tag, sel_attrs) # rest) =
     (case try_attrs soup tag sel_attrs of
        Some el \<Rightarrow> Some el
      | None \<Rightarrow> try_selectors soup rest)"

definition select_main_content :: "node \<Rightarrow> node" where
  "select_main_content soup =
     (case try_selectors soup main_content_tags of
        Some main_content \<Rightarrow> main_content
      | None \<Rightarrow> (case find_first soup ''body'' of Some body \<Rightarrow> body | None \<Rightarrow> soup))"

definition header_tags :: "string list" where
  "header_tags = [''h1'', ''h2'', ''h3'', ''h4'']"

fun sibling_texts :: "node list \<Rightarrow> string list" where
  \<comment> \<open>the \<open>while sibling and sibling.name not in [...]\<close> loop over the following siblings\<close>
  "sibling_texts [] = []"
| "sibling_texts (sibling # rest) =
     (if truthy sibling \<and> \<not> tag_named header_tags sibling
      then (let text = get_text [] True sibling in
            (if text \<noteq> [] then [text] else []) @ sibling_texts rest)
      else [])"

definition no_content :: string where
  "no_content = ''No content in this section''"

definition header_section :: "node \<times> node list \<Rightarrow> py_section list" where
  \<comment> \<open>one pass of \<open>for header in headers\<close>: the section appended, if one is\<close>
  "header_section hs =
     (let header_text = get_text [] True (fst hs) in
      if header_text = [] then []
      else (let section_content = py_join '' '' (sibling_texts (snd hs)) in
            [\<lparr>header = Some header_text,
              sec_text = (if section_content \<noteq> [] then section_content else no_content)\<rparr>]))"

definition header_sections :: "node \<Rightarrow> py_section list" where
  "header_sections main_content =
     concat (map header_section (find_all_ctx main_content header_tags))"

definition has_text :: "py_section list \<Rightarrow> bool" where
  \<comment> \<open>\<open>any(section.get('text') for section in sections)\<close>\<close>
  "has_text sections = list_ex (\<lambda>sec. sec_text sec \<noteq> []) sections"

definition fallback_section :: "node \<Rightarrow> py_section" where
  "fallback_section main_content =
     (case find_all main_content [''p''] of
        [] \<Rightarrow> \<lparr>header = None, sec_text = get_text '' '' True main_content\<rparr>
      | p # ps \<Rightarrow>
          \<lparr>header = None,
            sec_text = py_join '' '' (filter (\<lambda>t. t \<noteq> []) (map (get_text [] True) (p # ps)))\<rparr>)"

definition extract_sections :: "node \<Rightarrow> py_section list" where
  "extract_sections main_content =
     (let sections = header_sections main_content in
      if sections = [] \<or> \<not> has_text sections
      then sections @ [fallback_section main_content]
      else sections)"

datatype content_result =
    Raised
  | NoContent
  | Content string string

text \<open>
  \<open>extract_content\<close>: \<open>NoContent\<close> is \<open>return None, None\<close>, \<open>Content title content\<close> is
  \<open>return title, str(content_dict)\<close>, and \<open>Raised\<close> is an exception of the parser. The
  \<open>html\<close> argument may be \<open>None\<close>; the \<open>url\<close> argument is not used by the function.
\<close>

definition extract_content :: "env \<Rightarrow> string option \<Rightarrow> string \<Rightarrow> content_result" where
  "extract_content e html url =
     (case html of
        None \<Rightarrow> NoContent
      | Some h \<Rightarrow>
          if h = [] then NoContent
          else (case parse e h of
                  None \<Rightarrow> Raised
                | Some soup \<Rightarrow>
                    (let title = title_of soup;
                         soup' = decompose_all noise_tags soup;
                         main_content = select_main_content soup';
                         sections = extract_sections main_content
                     in Content title (str_content_dict sections))))"

section \<open>The crawl\<close>

record entry =
  e_id :: string
  e_title :: string
  e_url :: string
  e_text :: string

text \<open>
  The variables of \<open>main\<close>. \<open>requests\<close> is not a variable of the program: it records the
  URLs passed to \<open>fetch_url\<close>, in order.
\<close>

record state =
  all_entries :: "entry list"
  visited_urls :: "string fset"
  urls_to_visit :: "string list"
  counter :: nat
  skipped_urls :: nat
  empty_content_urls :: nat
  requests :: "string list"

fun str_nat :: "nat \<Rightarrow> string" where
  \<comment> \<open>\<open>str(n)\<close>: the decimal digits of \<open>n\<close>\<close>
  "str_nat n =
     (if n < 10 then [char_of (48 + n)]
      else str_nat (n div 10) @ [char_of (48 + n mod 10)])"

definition untitled :: string where
  "untitled = ''Untitled Page''"

definition add_entry :: "string \<Rightarrow> string \<Rightarrow> string \<Rightarrow> state \<Rightarrow> state" where
  \<comment> \<open>\<open>all_entries.append(entry); counter += 1\<close>\<close>
  "add_entry title current_url text s =
     s\<lparr>all_entries := all_entries s @
          [\<lparr>e_id = str_nat (counter s),
            e_title = (if title \<noteq> [] then title else untitled),
            e_url = current_url,
            e_text = text\<rparr>],
       counter := counter s + 1\<rparr>"

definition record_page :: "string \<Rightarrow> string \<Rightarrow> string \<Rightarrow> state \<Rightarrow> state" where
  \<comment> \<open>the branch \<open>if title or content\<close> of the loop body, with its \<open>try\<close> and \<open>except\<close>\<close>
  "record_page title content current_url s =
     (if title \<noteq> [] \<or> content \<noteq> [] then
        (case eval_content content of
           Some sections \<Rightarrow>
             add_entry title current_url content
               (if \<not> has_text sections
                then s\<lparr>empty_content_urls := empty_content_urls s + 1\<rparr>
                else s)
         | None \<Rightarrow>
             add_entry title current_url
               (if content \<noteq> [] then content else ''Unable to extract content'') s)
      else s\<lparr>skipped_urls := skipped_urls s + 1\<rparr>)"

fun enqueue_links :: "string list \<Rightarrow> state \<Rightarrow> state" where
  \<comment> \<open>\<open>for link in new_links\<close>\<close>
  "enqueue_links [] s = s"
| "enqueue_links (link # links) s =
     enqueue_links links
       (let base_link = split_hash link in
        if base_link |\<notin>| visited_urls s \<and> link \<notin> set (urls_to_visit s)
        then s\<lparr>urls_to_visit := urls_to_visit s @ [link]\<rparr>
        else s)"

definition more_links :: "env \<Rightarrow> nat \<Rightarrow> string \<Rightarrow> string \<Rightarrow> state \<Rightarrow> state" where
  \<comment> \<open>the block \<open>if len(visited_urls) < max_urls\<close> that ends the loop body\<close>
  "more_links e max_urls html current_url s =
     (if fcard (visited_urls s) < max_urls then
        (case extract_links e html current_url of
           None \<Rightarrow> s
         | Some new_links \<Rightarrow> enqueue_links new_links s)
      else s)"

definition process_url :: "env \<Rightarrow> nat \<Rightarrow> string \<Rightarrow> state \<Rightarrow> state" where
  \<comment> \<open>the loop body from \<open>visited_urls.add(base_url)\<close> on\<close>
  "process_url e max_urls current_url s0 =
     (let s = s0\<lparr>visited_urls := finsert (split_hash current_url) (visited_urls s0),
                  requests := requests s0 @ [current_url]\<rparr> in
      case fetch_url e current_url of
        None \<Rightarrow> s\<lparr>skipped_urls := skipped_urls s + 1\<rparr>
      | Some html \<Rightarrow>
          if html = [] then s\<lparr>skipped_urls := skipped_urls s + 1\<rparr>
          else (case extract_content e (Some html) current_url of
                  Raised \<Rightarrow> s\<lparr>skipped_urls := skipped_urls s + 1\<rparr>
                | NoContent \<Rightarrow>
                    more_links e max_urls html current_url (s\<lparr>skipped_urls := skipped_urls s + 1\<rparr>)
                | Content title content \<Rightarrow>
                    more_links e max_urls html current_url
                      (record_page title content current_url s)))"

definition crawl_step :: "env \<Rightarrow> nat \<Rightarrow> state \<Rightarrow> state" where
  \<comment> \<open>one pass of the \<open>while\<close> loop, entered with a queue that is not empty\<close>
  "crawl_step e max_urls s =
     (case urls_to_visit s of
        [] \<Rightarrow> s
      | current_url # rest \<Rightarrow>
          (let s' = s\<lparr>urls_to_visit := rest\<rparr> in
           if current_url |\<in>| visited_urls s' then s'
           else if split_hash current_url |\<in>| visited_urls s' then s'
           else process_url e max_urls current_url s'))"

definition loop_cond :: "nat \<Rightarrow> state \<Rightarrow> bool" where
  \<comment> \<open>\<open>urls_to_visit and len(visited_urls) < max_urls\<close>\<close>
  "loop_cond max_urls s = (urls_to_visit s \<noteq> [] \<and> fcard (visited_urls s) < max_urls)"

text \<open>
  The loop ends: a pass either takes a URL from the queue and leaves the visited set as it
  is, or adds a URL to the visited set, which the loop condition bounds.
\<close>

lemma enqueue_links_visited [simp]: "visited_urls (enqueue_links links s) = visited_urls s"
  by (induction links arbitrary: s) (simp_all add: Let_def)

lemma more_links_visited [simp]: "visited_urls (more_links e m html u s) = visited_urls s"
  by (simp add: more_links_def split: option.split)

lemma add_entry_visited [simp]: "visited_urls (add_entry t u c s) = visited_urls s"
  by (simp add: add_entry_def)

lemma record_page_visited [simp]: "visited_urls (record_page t c u s) = visited_urls s"
  by (simp add: record_page_def split: option.split)

lemma process_url_visited:
  "visited_urls (process_url e m u s) = finsert (split_hash u) (visited_urls s)"
  by (simp add: process_url_def Let_def split: option.split content_result.split)

lemma crawl_step_progress:
  assumes "urls_to_visit s \<noteq> []"
  shows "(visited_urls (crawl_step e m s) = visited_urls s \<and>
          length (urls_to_visit (crawl_step e m s)) < length (urls_to_visit s)) \<or>
         fcard (visited_urls (crawl_step e m s)) = Suc (fcard (visited_urls s))"
proof -
  from assms obtain u rest where q: "urls_to_visit s = u # rest"
    by (cases "urls_to_visit s") auto
  show ?thesis
  proof (cases "u |\<in>| visited_urls s \<or> split_hash u |\<in>| visited_urls s")
    case True
    with q show ?thesis by (auto simp: crawl_step_def Let_def)
  next
    case False
    with q have "visited_urls (crawl_step e m s) = finsert (split_hash u) (visited_urls s)"
      by (simp add: crawl_step_def Let_def process_url_visited)
    with False show ?thesis by (simp add: fcard_finsert_disjoint)
  qed
qed

function crawl_loop :: "env \<Rightarrow> nat \<Rightarrow> state \<Rightarrow> state" where
  "crawl_loop e max_urls s =
     (if loop_cond max_urls s then crawl_loop e max_urls (crawl_step e max_urls s) else s)"
  by pat_completeness auto
termination
proof (relation "measures [\<lambda>(e, m, s). m - fcard (visited_urls s),
                           \<lambda>(e, m, s). length (urls_to_visit s)]")
  show "wf (measures [\<lambda>(e, m, s). m - fcard (visited_urls s),
                      \<lambda>(e, m, s). length (urls_to_visit s)])"
    by simp
next
  fix e :: env and max_urls :: nat and s :: state
  assume c: "loop_cond max_urls s"
  then have "urls_to_visit s \<noteq> []" and "fcard (visited_urls s) < max_urls"
    by (simp_all add: loop_cond_def)
  with crawl_step_progress [of s e max_urls]
  show "((e, max_urls, crawl_step e max_urls s), (e, max_urls, s))
        \<in> measures [\<lambda>(e, m, s). m - fcard (visited_urls s),
                     \<lambda>(e, m, s). length (urls_to_visit s)]"
    by auto
qed

declare crawl_loop.simps [simp del]

fun crawl_iter :: "env \<Rightarrow> nat \<Rightarrow> nat \<Rightarrow> state \<Rightarrow> state" where
  \<comment> \<open>the state after \<open>n\<close> passes of the loop, or at its end when that comes first\<close>
  "crawl_iter e max_urls 0 s = s"
| "crawl_iter e max_urls (Suc n) s =
     (if loop_cond max_urls s then crawl_iter e max_urls n (crawl_step e max_urls s) else s)"

definition initial_state :: "string \<Rightarrow> state" where
  "initial_state root_url =
     \<lparr>all_entries = [], visited_urls = {||}, urls_to_visit = [root_url], counter = 1,
      skipped_urls = 0, empty_content_urls = 0, requests = []\<rparr>"

text \<open>
  \<open>main\<close> up to its loop: the root page is fetched and its links are put on the queue
  behind the root URL. The call of \<open>extract_links\<close> stands outside any \<open>try\<close>: when it
  raises, \<open>main\<close> ends with the exception (\<open>None\<close>). In the notebook \<open>root_url\<close> is
  \<open>https://www.clarku.edu/\<close> and \<open>max_urls\<close> is 50; both are parameters here.
\<close>

definition loop_entry :: "env \<Rightarrow> string \<Rightarrow> state option" where
  "loop_entry e root_url =
     (let s = (initial_state root_url)\<lparr>requests := [root_url]\<rparr> in
      case fetch_url e root_url of
        None \<Rightarrow> Some s
      | Some html \<Rightarrow>
          if html = [] then Some s
          else (case extract_links e html root_url of
                  None \<Rightarrow> None
                | Some first_level_links \<Rightarrow>
                    Some (s\<lparr>urls_to_visit := urls_to_visit s @ first_level_links\<rparr>)))"

definition main :: "env \<Rightarrow> string \<Rightarrow> nat \<Rightarrow> state option" where
  \<comment> \<open>the variables of \<open>main\<close> when its loop has ended\<close>
  "main e root_url max_urls = map_option (crawl_loop e max_urls) (loop_entry e root_url)"

section \<open>Concrete environments\<close>

definition page_env :: "(string \<times> string) list \<Rightarrow> (string \<times> node) list \<Rightarrow> env" where
  \<comment> \<open>a web server and a parser given by tables; \<open>list(set(xs))\<close> in order of first
      occurrence; no bracketed host accepted (the examples have none)\<close>
  "page_env web doms =
     \<lparr>fetch = map_of web, parse = map_of doms, set_order = remdups, bracket_ok = (\<lambda>n. False)\<rparr>"

definition doc :: "node list \<Rightarrow> node" where
  \<comment> \<open>the \<open>BeautifulSoup\<close> object over the top-level nodes of a document\<close>
  "doc cs = Tag ''[document]'' [] cs"

section \<open>Link extraction: the result\<close>











lemmas url_defs = get_domain_def urlparse_netloc_def strip_scheme_def ascii_alpha_def
  scheme_char_def ord_def netloc_delim_def startswith_def resolve_href_def

lemmas dom_defs = doc_def anchor_hrefs_def find_all_def descendants_def get_attr_def




section \<open>\<open>eval\<close> reads back what \<open>str\<close> wrote\<close>

lemma hexval_hexdigit: "k < 16 \<Longrightarrow> hexval (hexdigit k) = Some k"
proof -
  assume "k < 16"
  then have "k \<in> set [0..<16]" by simp
  then have "k \<in> {0,1,2,3,4,5,6,7,8,9,10,11,12,13,14,15}"
    by (simp add: upt_rec numeral_eq_Suc del: upt.simps)
  then show ?thesis
    by (auto simp: hexval_def hexdigit_def ord_def)
qed

lemma ord_lt_256: "ord c < 256"
  by (simp add: ord_def)

lemma char_of_hex: "char_of (16 * (ord c div 16) + ord c mod 16) = c"
  by (simp add: ord_def)

lemma str_body_repr_char:
  assumes "q = squote \<or> q = dquote"
  shows "str_body q (repr_char q c @ t) = map_option (\<lambda>(v, r). (c # v, r)) (str_body q t)"
proof -
  have hx: "hexval (hexdigit (ord c div 16)) = Some (ord c div 16)"
           "hexval (hexdigit (ord c mod 16)) = Some (ord c mod 16)"
    using ord_lt_256 [of c] by (auto intro!: hexval_hexdigit simp: div_less_iff_less_mult)
  have pr: "py_printable c \<Longrightarrow> raw_ok c"
    by (auto simp: py_printable_def raw_ok_def ord_def)
  show ?thesis
    using assms hx pr char_of_hex [of c]
    by (auto simp: repr_char_def squote_def dquote_def backslash_def)
qed

lemma str_body_repr:
  assumes "q = squote \<or> q = dquote"
  shows "str_body q (concat (map (repr_char q) s) @ q # rest) = Some (s, rest)"
  using assms by (induction s) (simp_all add: str_body_repr_char)

lemma eval_str_repr: "eval_str (py_repr s @ rest) = Some (s, rest)"
proof -
  have "repr_quote s = squote \<or> repr_quote s = dquote"
    by (simp add: repr_quote_def)
  then show ?thesis
    using str_body_repr [of "repr_quote s" s rest]
    by (auto simp: eval_str_def py_repr_def Let_def)
qed

lemma eval_key_repr: "eval_key k (py_repr k @ CHR '':'' # CHR '' '' # r) = Some r"
  by (simp add: eval_key_def eval_str_repr expect_def)

lemma eval_key_other: "k \<noteq> k' \<Longrightarrow> eval_key k (py_repr k' @ r) = None"
  by (simp add: eval_key_def eval_str_repr)

lemma eval_section_repr: "eval_section (repr_section sec @ r) = Some (sec, r)"
  by (cases "header sec")
     (simp_all add: eval_section_def repr_section_def expect_def eval_key_repr eval_key_other
        eval_str_repr)

lemma repr_section_head: "\<exists>t. repr_section sec = CHR ''{'' # t"
  by (simp add: repr_section_def split: option.split)

lemma eval_sections_repr:
  "secs \<noteq> [] \<Longrightarrow> length secs \<le> n \<Longrightarrow>
   eval_sections n (py_join '', '' (map repr_section secs) @ CHR '']'' # r) = Some (secs, r)"
proof (induction secs arbitrary: n)
  case Nil
  then show ?case by simp
next
  case (Cons sec secs)
  then obtain m where n: "n = Suc m" and m: "length secs \<le> m"
    by (cases n) auto
  show ?case
  proof (cases secs)
    case Nil
    then show ?thesis
      using n eval_section_repr [of sec "CHR '']'' # r"] by (simp add: expect_def)
  next
    case (Cons sec' secs')
    with Cons.IH [of m] m
    have ih: "eval_sections m (py_join '', '' (map repr_section secs) @ CHR '']'' # r)
              = Some (secs, r)"
      by simp
    have "eval_section (repr_section sec @ CHR '','' # CHR '' '' #
            py_join '', '' (map repr_section secs) @ CHR '']'' # r)
          = Some (sec, CHR '','' # CHR '' '' #
              py_join '', '' (map repr_section secs) @ CHR '']'' # r)"
      by (rule eval_section_repr)
    with ih Cons n show ?thesis
      by (simp add: expect_def)
  qed
qed

lemma length_py_join: "length xs \<le> length (py_join sep (map repr_section xs))"
proof (induction xs rule: induct_list012)
  case 1
  then show ?case by simp
next
  case (2 x)
  obtain t where "repr_section x = CHR ''{'' # t" using repr_section_head by blast
  then show ?case by simp
next
  case (3 x y zs)
  obtain t where "repr_section x = CHR ''{'' # t" using repr_section_head by blast
  with 3 show ?case by simp
qed

lemma eval_content_str: "eval_content (str_content_dict secs) = Some secs"
proof (cases secs)
  case Nil
  then show ?thesis
    by (simp add: eval_content_def str_content_dict_def eval_key_repr expect_def)
next
  case (Cons sec secs')
  obtain t where t: "repr_section sec = CHR ''{'' # t" using repr_section_head by blast
  let ?j = "py_join '', '' (map repr_section secs)"
  from Cons t obtain u where u: "?j = CHR ''{'' # u"
    by (cases secs') auto
  have len: "length secs \<le> length (str_content_dict secs)"
    using length_py_join [of secs "'', ''"] by (simp add: str_content_dict_def)
  have es: "eval_sections (length (str_content_dict secs)) (?j @ CHR '']'' # ''}'')
            = Some (secs, ''}'')"
    using Cons len by (intro eval_sections_repr) auto
  have ne: "expect '']}'' (?j @ '']}'') = None"
    by (simp add: u expect_def)
  have ex: "expect ''['' (CHR ''['' # ?j @ '']}'') = Some (?j @ '']}'')"
    by (simp add: expect_def)
  have "eval_content (CHR ''{'' # py_repr ''sections'' @ CHR '':'' # CHR '' '' # CHR ''['' #
          ?j @ '']}'') = Some secs"
    unfolding eval_content_def
    using es ne ex
    by (simp add: eval_key_repr expect_def str_content_dict_def)
  then show ?thesis by (simp add: str_content_dict_def)
qed

lemma str_content_dict_nonempty: "str_content_dict secs \<noteq> []"
  by (simp add: str_content_dict_def)

section \<open>The result of \<open>extract_content\<close>\<close>

lemma header_section_text: "sec \<in> set (header_section hs) \<Longrightarrow> sec_text sec \<noteq> []"
  by (auto simp: header_section_def Let_def no_content_def split: if_splits)

lemma header_sections_has_text: "header_sections mc \<noteq> [] \<Longrightarrow> has_text (header_sections mc)"
proof -
  assume "header_sections mc \<noteq> []"
  then obtain sec where sec: "sec \<in> set (header_sections mc)"
    by (cases "header_sections mc") auto
  then have "sec_text sec \<noteq> []"
    by (auto simp: header_sections_def dest: header_section_text)
  with sec show ?thesis
    by (auto simp: has_text_def list_ex_iff)
qed

lemma extract_sections_cases:
  "extract_sections mc =
     (if header_sections mc = [] then [fallback_section mc] else header_sections mc)"
  using header_sections_has_text [of mc] by (auto simp: extract_sections_def Let_def)

lemma extract_sections_nonempty: "extract_sections mc \<noteq> []"
  by (simp add: extract_sections_cases)

lemma extract_content_sections:
  assumes "html = Some h" and "h \<noteq> []" and "parse e h = Some soup"
  shows "\<exists>title secs. extract_content e html url = Content title (str_content_dict secs) \<and>
           secs \<noteq> []"
proof -
  let ?secs = "extract_sections (select_main_content (decompose_all noise_tags soup))"
  from assms have "extract_content e html url = Content (title_of soup) (str_content_dict ?secs)"
    by (simp add: extract_content_def Let_def)
  with extract_sections_nonempty [of "select_main_content (decompose_all noise_tags soup)"]
  show ?thesis by blast
qed

text \<open>
  C10, as the code has it. On an \<open>html\<close> argument that is a string, not empty, and that
  the parser accepts, \<open>extract_content\<close> returns a title and the text form of a list of
  sections that holds at least one section; that text is not empty and \<open>eval\<close> reads the
  sections back from it.
\<close>

theorem extract_content_nonempty:
  assumes "html = Some h" and "h \<noteq> []" and "parse e h = Some soup"
  shows "\<exists>title secs. extract_content e html url = Content title (str_content_dict secs) \<and>
           secs \<noteq> [] \<and> str_content_dict secs \<noteq> [] \<and>
           eval_content (str_content_dict secs) = Some secs"
proof -
  let ?secs = "extract_sections (select_main_content (decompose_all noise_tags soup))"
  from assms have "extract_content e html url = Content (title_of soup) (str_content_dict ?secs)"
    by (simp add: extract_content_def Let_def)
  moreover have "?secs \<noteq> []"
    by (rule extract_sections_nonempty)
  ultimately show ?thesis
    using str_content_dict_nonempty [of ?secs] eval_content_str [of ?secs] by blast
qed

definition empty_page :: node where
  \<comment> \<open>the document of the markup \<open><p></p>\<close>\<close>
  "empty_page = doc [Tag ''p'' [] []]"

definition empty_env :: env where
  "empty_env = page_env [(''https://d.org/'', ''<p></p>'')] [(''<p></p>'', empty_page), ([], doc [])]"

lemmas content_defs = extract_content_def title_of_def find_first_def select_main_content_def
  main_content_tags_def attr_matches_def extract_sections_def header_sections_def
  find_all_ctx_def header_section_def header_tags_def noise_tags_def fallback_section_def
  has_text_def get_text_def text_len_def kept_def py_strip_def py_isspace_def no_content_def

lemma empty_page_content:
  "extract_content empty_env (Some ''<p></p>'') u =
     Content [] (str_content_dict [\<lparr>header = None, sec_text = []\<rparr>])"
  by (simp add: empty_env_def page_env_def empty_page_def content_defs dom_defs)

theorem extract_content_nonempty_witness:
  "\<exists>title secs.
     extract_content empty_env (Some ''<p></p>'') ''https://d.org/''
       = Content title (str_content_dict secs) \<and>
     secs \<noteq> [] \<and> str_content_dict secs \<noteq> [] \<and>
     eval_content (str_content_dict secs) = Some secs"
proof -
  have 1: "parse empty_env ''<p></p>'' = Some empty_page"
    by (simp add: empty_env_def page_env_def)
  show ?thesis
    by (rule extract_content_nonempty [OF refl _ 1]) simp
qed

text \<open>
  C10 as stated speaks of every \<open>html\<close> that is not \<open>None\<close>. The empty string is such an
  argument, and the parser accepts it, but the guard \<open>if not html\<close> returns
  \<open>(None, None)\<close> for it: no section, and no text.
\<close>

theorem extract_content_empty_counterexample:
  "parse empty_env [] = Some (doc []) \<and> extract_content empty_env (Some []) ''https://d.org/'' = NoContent"
  by (simp add: extract_content_def empty_env_def page_env_def)

section \<open>Choice of the content region\<close>

text \<open>
  The selectors \<open>main\<close> and \<open>article\<close> have no attributes, and \<open>find_all\<close> is called
  inside the loop over a selector's attributes: for these two selectors it is never called.
\<close>

lemma try_selectors_main_content_tags:
  "try_selectors soup main_content_tags =
     (case try_values soup ''div'' ''id'' [''content'', ''main-content'', ''mainContent'', ''main''] of
        Some el \<Rightarrow> Some el
      | None \<Rightarrow>
          try_values soup ''div'' ''class''
            [''content'', ''main-content'', ''main'', ''article'', ''post''])"
  by (simp add: main_content_tags_def split: option.split)

definition main_page :: node where
  \<comment> \<open>\<open><html><body><p>outside</p><main><p>inside</p></main></body></html>\<close>\<close>
  "main_page =
     doc [Tag ''html'' []
            [Tag ''body'' []
               [Tag ''p'' [] [NavigableString ''outside''],
                Tag ''main'' [] [Tag ''p'' [] [NavigableString ''inside'']]]]]"

definition main_env :: env where
  "main_env = page_env [] [(''<main>'', main_page)]"

text \<open>
  C4 on a page whose only candidate container is a \<open>main\<close> element: the region chosen is
  the body, and the text outside the \<open>main\<close> element is part of the content.
\<close>

theorem main_element_not_selected:
  "select_main_content (decompose_all noise_tags main_page)
     = Tag ''body'' [] [Tag ''p'' [] [NavigableString ''outside''],
                        Tag ''main'' [] [Tag ''p'' [] [NavigableString ''inside'']]]
   \<and> extract_content main_env (Some ''<main>'') ''https://d.org/''
     = Content [] (str_content_dict [\<lparr>header = None, sec_text = ''outside inside''\<rparr>])"
  by (simp add: main_env_def page_env_def main_page_def content_defs dom_defs)

section \<open>The loop and its passes\<close>

lemma crawl_loop_iter:
  "\<not> loop_cond m (crawl_iter e m n s) \<Longrightarrow> crawl_loop e m s = crawl_iter e m n s"
proof (induction n arbitrary: s)
  case 0
  then show ?case by (simp add: crawl_loop.simps)
next
  case (Suc n)
  then show ?case by (simp add: crawl_loop.simps [of e m s] split: if_splits)
qed

lemma crawl_loop_ends: "\<exists>n. crawl_loop e m s = crawl_iter e m n s \<and> \<not> loop_cond m (crawl_iter e m n s)"
proof (induction e m s rule: crawl_loop.induct)
  case (1 e m s)
  show ?case
  proof (cases "loop_cond m s")
    case False
    then have "crawl_loop e m s = crawl_iter e m 0 s \<and> \<not> loop_cond m (crawl_iter e m 0 s)"
      by (simp add: crawl_loop.simps)
    then show ?thesis by blast
  next
    case True
    from 1 [OF True] obtain n where
      "crawl_loop e m (crawl_step e m s) = crawl_iter e m n (crawl_step e m s)"
      "\<not> loop_cond m (crawl_iter e m n (crawl_step e m s))"
      by blast
    with True have "crawl_loop e m s = crawl_iter e m (Suc n) s \<and>
        \<not> loop_cond m (crawl_iter e m (Suc n) s)"
      by (simp add: crawl_loop.simps [of e m s])
    then show ?thesis by blast
  qed
qed

lemma record_page_content:
  "record_page title (str_content_dict secs) u s =
     add_entry title u (str_content_dict secs)
       (if \<not> has_text secs then s\<lparr>empty_content_urls := empty_content_urls s + 1\<rparr> else s)"
  by (simp add: record_page_def eval_content_str str_content_dict_nonempty)

declare str_nat.simps [simp del]

lemma str_nat_1: "str_nat (Suc 0) = ''1''"
  by code_simp

lemma fcard_fempty0 [simp]: "fcard {||} = 0"
  by simp

section \<open>A page without title and text\<close>

lemmas crawl_defs = main_def loop_entry_def initial_state_def fetch_url_def loop_cond_def
  crawl_step_def process_url_def more_links_def add_entry_def untitled_def

text \<open>
  C3 on a page with no title and no text (\<open><p></p>\<close>), fetched with success: the page is
  recorded under the title \<open>Untitled Page\<close>, \<open>skipped_urls\<close> stays 0 and
  \<open>empty_content_urls\<close> becomes 1. The content that \<open>main\<close> tests with
  \<open>if title or content\<close> is the text form of the dictionary, which is never empty.
\<close>

theorem empty_page_recorded:
  "main empty_env ''https://d.org/'' 50 =
     Some \<lparr>all_entries =
             [\<lparr>e_id = ''1'', e_title = ''Untitled Page'', e_url = ''https://d.org/'',
               e_text = str_content_dict [\<lparr>header = None, sec_text = []\<rparr>]\<rparr>],
           visited_urls = {|''https://d.org/''|},
           urls_to_visit = [],
           counter = 2,
           skipped_urls = 0,
           empty_content_urls = 1,
           requests = [''https://d.org/'', ''https://d.org/'']\<rparr>"
proof -
  have links: "extract_links empty_env ''<p></p>'' ''https://d.org/'' = Some []"
    by (simp add: extract_links_def empty_env_def page_env_def empty_page_def dom_defs url_defs)
  have f: "fetch empty_env ''https://d.org/'' = Some ''<p></p>''"
    by (simp add: empty_env_def page_env_def)
  let ?s0 = "(initial_state ''https://d.org/'')\<lparr>requests := [''https://d.org/'']\<rparr>"
  have entry: "loop_entry empty_env ''https://d.org/'' = Some ?s0"
    by (simp add: loop_entry_def fetch_url_def f links initial_state_def)
  have step: "crawl_iter empty_env 50 (Suc (Suc 0)) ?s0 =
     \<lparr>all_entries =
             [\<lparr>e_id = ''1'', e_title = ''Untitled Page'', e_url = ''https://d.org/'',
               e_text = str_content_dict [\<lparr>header = None, sec_text = []\<rparr>]\<rparr>],
           visited_urls = {|''https://d.org/''|},
           urls_to_visit = [],
           counter = 2,
           skipped_urls = 0,
           empty_content_urls = 1,
           requests = [''https://d.org/'', ''https://d.org/'']\<rparr>"
    by (simp add: crawl_defs f links empty_page_content record_page_content has_text_def
        split_hash_def Let_def fcard_finsert_if str_nat_1)
  have "\<not> loop_cond 50 (crawl_iter empty_env 50 (Suc (Suc 0)) ?s0)"
    unfolding step by (simp add: loop_cond_def)
  from crawl_loop_iter [OF this] step entry show ?thesis
    by (simp add: main_def)
qed

section \<open>The visited set\<close>

lemma crawl_step_visited_mono: "visited_urls s |\<subseteq>| visited_urls (crawl_step e m s)"
  by (auto simp: crawl_step_def Let_def process_url_visited split: list.split)

lemma crawl_step_bound:
  assumes "loop_cond m s"
  shows "fcard (visited_urls (crawl_step e m s)) \<le> m"
proof -
  from assms have "urls_to_visit s \<noteq> []" and "fcard (visited_urls s) < m"
    by (simp_all add: loop_cond_def)
  with crawl_step_progress [of s e m] show ?thesis by auto
qed

lemma crawl_iter_bound:
  "fcard (visited_urls s) \<le> m \<Longrightarrow> fcard (visited_urls (crawl_iter e m n s)) \<le> m"
  by (induction n arbitrary: s) (simp_all add: crawl_step_bound)

lemma crawl_iter_visited_mono: "visited_urls s |\<subseteq>| visited_urls (crawl_iter e m n s)"
proof (induction n arbitrary: s)
  case 0
  then show ?case by simp
next
  case (Suc n)
  from crawl_step_visited_mono [of s e m] Suc [of "crawl_step e m s"] show ?case
    by auto
qed

lemma crawl_iter_done: "\<not> loop_cond m s \<Longrightarrow> crawl_iter e m n s = s"
  by (cases n) simp_all

lemma crawl_iter_add: "crawl_iter e m (n + k) s = crawl_iter e m k (crawl_iter e m n s)"
  by (induction n arbitrary: s) (simp_all add: crawl_iter_done)

lemma crawl_iter_final:
  assumes "\<not> loop_cond m (crawl_iter e m N s)"
  shows "\<exists>k. crawl_iter e m N s = crawl_iter e m k (crawl_iter e m n s)"
proof (cases "n \<le> N")
  case True
  then have "crawl_iter e m N s = crawl_iter e m (N - n) (crawl_iter e m n s)"
    using crawl_iter_add [of e m n "N - n" s] by simp
  then show ?thesis by blast
next
  case False
  then have "crawl_iter e m n s = crawl_iter e m (n - N) (crawl_iter e m N s)"
    using crawl_iter_add [of e m N "n - N" s] by simp
  with assms have "crawl_iter e m n s = crawl_iter e m N s"
    by (simp add: crawl_iter_done)
  then have "crawl_iter e m N s = crawl_iter e m 0 (crawl_iter e m n s)" by simp
  then show ?thesis by blast
qed

lemma main_reaches:
  assumes "loop_entry e root_url = Some s0"
  shows "\<exists>k. main e root_url m = Some (crawl_iter e m k (crawl_iter e m n s0)) \<and>
             \<not> loop_cond m (crawl_iter e m k (crawl_iter e m n s0))"
proof -
  from crawl_loop_ends [of e m s0] obtain N where
    N: "crawl_loop e m s0 = crawl_iter e m N s0" "\<not> loop_cond m (crawl_iter e m N s0)"
    by blast
  from crawl_iter_final [OF N(2), of n] obtain k where
    "crawl_iter e m N s0 = crawl_iter e m k (crawl_iter e m n s0)"
    by blast
  with N assms show ?thesis by (auto simp: main_def)
qed

lemma loop_entry_start:
  assumes "loop_entry e root_url = Some s0"
  shows "visited_urls s0 = {||}" and "all_entries s0 = []" and "counter s0 = 1"
    and "requests s0 = [root_url]" and "\<exists>links. urls_to_visit s0 = root_url # links"
  using assms
  by (auto simp: loop_entry_def initial_state_def Let_def split: option.splits if_splits)

text \<open>
  C2. In every state that the loop of \<open>main\<close> reaches, and in the state with which \<open>main\<close>
  ends, the visited set has at most \<open>max_urls\<close> elements; and what is in the visited set
  in one state is in it in every later state.
\<close>

theorem visit_bound:
  assumes "loop_entry e root_url = Some s0"
  shows "fcard (visited_urls (crawl_iter e max_urls n s0)) \<le> max_urls \<and>
         visited_urls (crawl_iter e max_urls n s0)
           |\<subseteq>| visited_urls (crawl_iter e max_urls (n + k) s0) \<and>
         (\<exists>s. main e root_url max_urls = Some s \<and> fcard (visited_urls s) \<le> max_urls \<and>
              visited_urls (crawl_iter e max_urls n s0) |\<subseteq>| visited_urls s)"
proof -
  from assms have v0: "fcard (visited_urls s0) \<le> max_urls"
    by (simp add: loop_entry_start)
  then have 1: "fcard (visited_urls (crawl_iter e max_urls n s0)) \<le> max_urls"
    by (rule crawl_iter_bound)
  have 2: "visited_urls (crawl_iter e max_urls n s0)
             |\<subseteq>| visited_urls (crawl_iter e max_urls (n + k) s0)"
    by (simp add: crawl_iter_add crawl_iter_visited_mono)
  from main_reaches [OF assms, of max_urls n] obtain j where
    j: "main e root_url max_urls = Some (crawl_iter e max_urls j (crawl_iter e max_urls n s0))"
    by blast
  have "fcard (visited_urls (crawl_iter e max_urls j (crawl_iter e max_urls n s0))) \<le> max_urls"
    using 1 by (rule crawl_iter_bound)
  with j have 3: "\<exists>s. main e root_url max_urls = Some s \<and> fcard (visited_urls s) \<le> max_urls \<and>
      visited_urls (crawl_iter e max_urls n s0) |\<subseteq>| visited_urls s"
    by (simp add: crawl_iter_visited_mono)
  from 1 2 3 show ?thesis by blast
qed

section \<open>A small site\<close>

text \<open>
  Three pages on the host \<open>d.org\<close>. The root page has a title, two headings with
  paragraphs under each, and a link to \<open>/b\<close>; the page \<open>/b\<close> has no text and links to
  \<open>/a#x\<close> and \<open>/a#y\<close>; the page \<open>/a\<close> has one paragraph.
\<close>

definition home_page :: node where
  "home_page =
     doc [Tag ''html'' []
            [Tag ''head'' [] [Tag ''title'' [] [NavigableString ''Home'']],
             Tag ''body'' []
               [Tag ''h1'' [] [NavigableString ''Intro''],
                Tag ''p'' [] [NavigableString ''A''],
                Tag ''p'' [] [NavigableString ''B''],
                Tag ''h1'' [] [NavigableString ''Details''],
                Tag ''p'' [] [NavigableString ''C''],
                Tag ''a'' [(''href'', ''/b'')] [NavigableString ''more'']]]]"

definition b_page :: node where
  "b_page = doc [Tag ''a'' [(''href'', ''/a#x'')] [], Tag ''a'' [(''href'', ''/a#y'')] []]"

definition a_page :: node where
  "a_page = doc [Tag ''p'' [] [NavigableString ''inside'']]"

definition site_env :: env where
  "site_env =
     page_env [(''https://d.org/'', ''<home>''), (''https://d.org/b'', ''<b>''),
               (''https://d.org/a#x'', ''<a>''), (''https://d.org/a#y'', ''<a>'')]
              [(''<home>'', home_page), (''<b>'', b_page), (''<a>'', a_page)]"

definition home_sections :: "py_section list" where
  "home_sections = [\<lparr>header = Some ''Intro'', sec_text = ''A B''\<rparr>,
                    \<lparr>header = Some ''Details'', sec_text = ''C more''\<rparr>]"

lemma site_fetch:
  "fetch site_env ''https://d.org/'' = Some ''<home>''"
  "fetch site_env ''https://d.org/b'' = Some ''<b>''"
  "fetch site_env ''https://d.org/a#x'' = Some ''<a>''"
  "fetch site_env ''https://d.org/a#y'' = Some ''<a>''"
  by (simp_all add: site_env_def page_env_def)

lemma site_parse:
  "parse site_env ''<home>'' = Some home_page"
  "parse site_env ''<b>'' = Some b_page"
  "parse site_env ''<a>'' = Some a_page"
  "set_order site_env = remdups"
  by (simp_all add: site_env_def page_env_def)

lemma home_links: "extract_links site_env ''<home>'' ''https://d.org/'' = Some [''https://d.org/b'']"
  by (simp add: extract_links_def site_parse home_page_def dom_defs url_defs)

lemma b_links:
  "extract_links site_env ''<b>'' ''https://d.org/b''
     = Some [''https://d.org/a#x'', ''https://d.org/a#y'']"
  by (simp add: extract_links_def site_parse b_page_def dom_defs url_defs)

lemma a_links: "extract_links site_env ''<a>'' ''https://d.org/a#x'' = Some []"
  by (simp add: extract_links_def site_parse a_page_def dom_defs url_defs)

lemma home_header_sections:
  "header_sections (Tag ''body'' []
               [Tag ''h1'' [] [NavigableString ''Intro''],
                Tag ''p'' [] [NavigableString ''A''],
                Tag ''p'' [] [NavigableString ''B''],
                Tag ''h1'' [] [NavigableString ''Details''],
                Tag ''p'' [] [NavigableString ''C''],
                Tag ''a'' [(''href'', ''/b'')] [NavigableString ''more'']]) = home_sections"
  by (simp add: home_sections_def content_defs dom_defs)

lemma home_content:
  "extract_content site_env (Some ''<home>'') u = Content ''Home'' (str_content_dict home_sections)"
  by (simp add: site_parse home_page_def extract_content_def title_of_def find_first_def
      select_main_content_def main_content_tags_def attr_matches_def noise_tags_def get_text_def
      kept_def py_strip_def py_isspace_def dom_defs extract_sections_cases home_header_sections
      home_sections_def)

lemma b_content:
  "extract_content site_env (Some ''<b>'') u =
     Content [] (str_content_dict [\<lparr>header = None, sec_text = []\<rparr>])"
  by (simp add: site_parse b_page_def content_defs dom_defs)

lemma a_content:
  "extract_content site_env (Some ''<a>'') u =
     Content [] (str_content_dict [\<lparr>header = None, sec_text = ''inside''\<rparr>])"
  by (simp add: site_parse a_page_def content_defs dom_defs)

definition site_start :: state where
  "site_start =
     \<lparr>all_entries = [], visited_urls = {||},
      urls_to_visit = [''https://d.org/'', ''https://d.org/b''],
      counter = 1, skipped_urls = 0, empty_content_urls = 0,
      requests = [''https://d.org/'']\<rparr>"

definition home_entry :: entry where
  "home_entry = \<lparr>e_id = ''1'', e_title = ''Home'', e_url = ''https://d.org/'',
                  e_text = str_content_dict home_sections\<rparr>"

definition b_entry :: entry where
  "b_entry = \<lparr>e_id = ''2'', e_title = ''Untitled Page'', e_url = ''https://d.org/b'',
               e_text = str_content_dict [\<lparr>header = None, sec_text = []\<rparr>]\<rparr>"

definition a_entry :: entry where
  "a_entry = \<lparr>e_id = ''3'', e_title = ''Untitled Page'', e_url = ''https://d.org/a#x'',
               e_text = str_content_dict [\<lparr>header = None, sec_text = ''inside''\<rparr>]\<rparr>"

lemma site_entry: "loop_entry site_env ''https://d.org/'' = Some site_start"
  by (simp add: loop_entry_def fetch_url_def site_fetch home_links initial_state_def site_start_def)

lemma str_nat_digits:
  "str_nat (Suc (Suc 0)) = ''2''" "str_nat (Suc (Suc (Suc 0))) = ''3''"
  "str_nat 2 = ''2''" "str_nat 3 = ''3''"
  by code_simp+

lemmas step_defs = loop_cond_def crawl_step_def process_url_def more_links_def add_entry_def
  untitled_def fetch_url_def record_page_content has_text_def split_hash_def Let_def
  fcard_finsert_if

lemma site_pass1:
  "crawl_iter site_env 4 (Suc 0) site_start =
     \<lparr>all_entries = [home_entry], visited_urls = {|''https://d.org/''|},
      urls_to_visit = [''https://d.org/b''],
      counter = 2, skipped_urls = 0, empty_content_urls = 0,
      requests = [''https://d.org/'', ''https://d.org/'']\<rparr>"
  by (simp add: site_start_def step_defs site_fetch home_links home_content home_sections_def
      home_entry_def str_nat_1 str_nat_digits)

lemma site_pass2:
  "crawl_iter site_env 4 (Suc (Suc 0)) site_start =
     \<lparr>all_entries = [home_entry, b_entry],
      visited_urls = {|''https://d.org/b'', ''https://d.org/''|},
      urls_to_visit = [''https://d.org/a#x'', ''https://d.org/a#y''],
      counter = 3, skipped_urls = 0, empty_content_urls = 1,
      requests = [''https://d.org/'', ''https://d.org/'', ''https://d.org/b'']\<rparr>"
  by (simp add: site_start_def step_defs site_fetch home_links home_content home_sections_def
      home_entry_def b_links b_content b_entry_def str_nat_1 str_nat_digits)


lemma site_pass3:
  "crawl_iter site_env 4 (Suc (Suc (Suc 0))) site_start =
     \<lparr>all_entries = [home_entry, b_entry, a_entry],
      visited_urls = {|''https://d.org/a'', ''https://d.org/b'', ''https://d.org/''|},
      urls_to_visit = [''https://d.org/a#y''],
      counter = 4, skipped_urls = 0, empty_content_urls = 1,
      requests = [''https://d.org/'', ''https://d.org/'', ''https://d.org/b'',
                  ''https://d.org/a#x'']\<rparr>"
  by (simp add: site_start_def step_defs site_fetch home_links home_content home_sections_def
      home_entry_def b_links b_content b_entry_def a_links a_content a_entry_def
      str_nat_1 str_nat_digits)

lemma site_pass4:
  "crawl_iter site_env 4 (Suc (Suc (Suc (Suc 0)))) site_start =
     \<lparr>all_entries = [home_entry, b_entry, a_entry],
      visited_urls = {|''https://d.org/a'', ''https://d.org/b'', ''https://d.org/''|},
      urls_to_visit = [],
      counter = 4, skipped_urls = 0, empty_content_urls = 1,
      requests = [''https://d.org/'', ''https://d.org/'', ''https://d.org/b'',
                  ''https://d.org/a#x'']\<rparr>"
  by (simp add: site_start_def step_defs site_fetch home_links home_content home_sections_def
      home_entry_def b_links b_content b_entry_def a_links a_content a_entry_def
      str_nat_1 str_nat_digits)

lemma site_main:
  "main site_env ''https://d.org/'' 4 =
     Some \<lparr>all_entries = [home_entry, b_entry, a_entry],
      visited_urls = {|''https://d.org/a'', ''https://d.org/b'', ''https://d.org/''|},
      urls_to_visit = [],
      counter = 4, skipped_urls = 0, empty_content_urls = 1,
      requests = [''https://d.org/'', ''https://d.org/'', ''https://d.org/b'',
                  ''https://d.org/a#x'']\<rparr>"
proof -
  have "\<not> loop_cond 4 (crawl_iter site_env 4 (Suc (Suc (Suc (Suc 0)))) site_start)"
    unfolding site_pass4 by (simp add: loop_cond_def)
  then have "crawl_loop site_env 4 site_start
      = crawl_iter site_env 4 (Suc (Suc (Suc (Suc 0)))) site_start"
    by (rule crawl_loop_iter)
  then show ?thesis
    unfolding site_pass4 by (simp add: main_def site_entry)
qed

theorem visit_bound_witness:
  "fcard (visited_urls (crawl_iter site_env 4 (Suc (Suc 0)) site_start)) \<le> 4 \<and>
   visited_urls (crawl_iter site_env 4 (Suc (Suc 0)) site_start)
     |\<subseteq>| visited_urls (crawl_iter site_env 4 (Suc (Suc 0) + 1) site_start) \<and>
   (\<exists>s. main site_env ''https://d.org/'' 4 = Some s \<and> fcard (visited_urls s) \<le> 4 \<and>
        visited_urls (crawl_iter site_env 4 (Suc (Suc 0)) site_start) |\<subseteq>| visited_urls s)"
  by (rule visit_bound [OF site_entry])

section \<open>What the loop puts on the queue\<close>

definition appended :: "string fset \<Rightarrow> string list \<Rightarrow> string list \<Rightarrow> bool" where
  \<comment> \<open>\<open>q'\<close> is \<open>q\<close> with links appended, each of them once, none of them in \<open>q\<close>, and none
      with its fragment-stripped form in \<open>V\<close>\<close>
  "appended V q q' =
     (take (length q) q' = q \<and> distinct (drop (length q) q') \<and>
      list_all (\<lambda>l. split_hash l |\<notin>| V \<and> l \<notin> set q) (drop (length q) q'))"

lemma appended_refl: "appended V q q"
  by (simp add: appended_def)

lemma appended_distinct: "appended V q q' \<Longrightarrow> distinct q \<Longrightarrow> distinct q'"
proof -
  assume a: "appended V q q'" and d: "distinct q"
  from a have "q' = q @ drop (length q) q'"
    by (metis append_take_drop_id appended_def)
  moreover from a have "distinct (drop (length q) q')"
    and "set (drop (length q) q') \<inter> set q = {}"
    by (auto simp: appended_def list_all_iff)
  ultimately show ?thesis
    using d by (metis distinct_append inf_commute)
qed

lemma enqueue_links_appended:
  "appended (visited_urls s) (urls_to_visit s) (urls_to_visit (enqueue_links links s))"
proof -
  have "\<exists>added. urls_to_visit (enqueue_links links s) = urls_to_visit s @ added \<and>
          distinct added \<and>
          (\<forall>l\<in>set added. split_hash l |\<notin>| visited_urls s \<and> l \<notin> set (urls_to_visit s))"
  proof (induction links arbitrary: s)
    case Nil
    then show ?case by simp
  next
    case (Cons link links)
    let ?s = "if split_hash link |\<notin>| visited_urls s \<and> link \<notin> set (urls_to_visit s)
              then s\<lparr>urls_to_visit := urls_to_visit s @ [link]\<rparr> else s"
    from Cons [of ?s] obtain added where a:
      "urls_to_visit (enqueue_links links ?s) = urls_to_visit ?s @ added"
      "distinct added"
      "\<forall>l\<in>set added. split_hash l |\<notin>| visited_urls ?s \<and> l \<notin> set (urls_to_visit ?s)"
      by blast
    show ?case
    proof (cases "split_hash link |\<notin>| visited_urls s \<and> link \<notin> set (urls_to_visit s)")
      case True
      with a have "urls_to_visit (enqueue_links (link # links) s)
            = urls_to_visit s @ (link # added) \<and> distinct (link # added) \<and>
          (\<forall>l\<in>set (link # added). split_hash l |\<notin>| visited_urls s \<and> l \<notin> set (urls_to_visit s))"
        by (auto simp: Let_def)
      then show ?thesis by blast
    next
      case False
      with a have "urls_to_visit (enqueue_links (link # links) s) = urls_to_visit s @ added \<and>
          distinct added \<and>
          (\<forall>l\<in>set added. split_hash l |\<notin>| visited_urls s \<and> l \<notin> set (urls_to_visit s))"
        by (auto simp: Let_def)
      then show ?thesis by blast
    qed
  qed
  then show ?thesis
    by (auto simp: appended_def list_all_iff)
qed

lemma add_entry_queue [simp]: "urls_to_visit (add_entry t u c s) = urls_to_visit s"
  by (simp add: add_entry_def)

lemma record_page_queue [simp]: "urls_to_visit (record_page t c u s) = urls_to_visit s"
  by (simp add: record_page_def split: option.split)

lemma more_links_appended:
  "visited_urls s = V \<Longrightarrow> urls_to_visit s = q \<Longrightarrow>
   appended V q (urls_to_visit (more_links e m html u s))"
  using enqueue_links_appended [of s]
  by (auto simp: more_links_def appended_refl split: option.split)

lemma process_url_appended:
  "appended (visited_urls (process_url e m u s)) (urls_to_visit s)
     (urls_to_visit (process_url e m u s))"
  unfolding process_url_visited
  by (auto simp: process_url_def Let_def appended_refl
      intro!: more_links_appended split: option.split content_result.split)

lemma crawl_step_appended:
  "appended (visited_urls (crawl_step e m s)) (tl (urls_to_visit s))
     (urls_to_visit (crawl_step e m s))"
proof (cases "urls_to_visit s")
  case Nil
  then show ?thesis by (simp add: crawl_step_def appended_refl)
next
  case (Cons u rest)
  let ?s = "s\<lparr>urls_to_visit := rest\<rparr>"
  from process_url_appended [of e m u ?s] Cons show ?thesis
    by (simp add: crawl_step_def Let_def appended_refl)
qed

lemma crawl_step_distinct:
  "distinct (tl (urls_to_visit s)) \<Longrightarrow> distinct (urls_to_visit (crawl_step e m s))"
  using crawl_step_appended appended_distinct by blast

lemma crawl_iter_distinct:
  "distinct (tl (urls_to_visit s)) \<Longrightarrow> distinct (tl (urls_to_visit (crawl_iter e m n s)))"
proof (induction n arbitrary: s)
  case 0
  then show ?case by simp
next
  case (Suc n)
  show ?case
  proof (cases "loop_cond m s")
    case True
    from Suc.prems have "distinct (urls_to_visit (crawl_step e m s))"
      by (rule crawl_step_distinct)
    then have "distinct (tl (urls_to_visit (crawl_step e m s)))"
      by (rule distinct_tl)
    from Suc.IH [OF this] True show ?thesis by simp
  next
    case False
    with Suc.prems show ?thesis by simp
  qed
qed

lemma crawl_iter_last:
  "crawl_iter e m (Suc n) s =
     (if loop_cond m (crawl_iter e m n s) then crawl_step e m (crawl_iter e m n s)
      else crawl_iter e m n s)"
  using crawl_iter_add [of e m n "Suc 0" s] by simp

lemma loop_entry_distinct:
  assumes "loop_entry e root_url = Some s0" and "lists_set (set_order e)"
  shows "distinct (tl (urls_to_visit s0))"
  using assms
  by (auto simp: loop_entry_def initial_state_def Let_def extract_links_def lists_set_def
      split: option.splits if_splits)

text \<open>
  C1, as the code has it. In a pass of the loop the queue loses its head and gains, at its
  tail, links of the page; each link is appended only when its fragment-stripped form is
  not in the visited set and the link itself, as a string, is not on the queue; and after
  the pass no two entries of the queue are the same string.
\<close>

theorem enqueue_dedup:
  assumes "loop_entry e root_url = Some s0" and "lists_set (set_order e)"
    and "s = crawl_iter e max_urls n s0"
  shows "appended (visited_urls (crawl_step e max_urls s)) (tl (urls_to_visit s))
           (urls_to_visit (crawl_step e max_urls s)) \<and>
         distinct (urls_to_visit (crawl_step e max_urls s))"
proof -
  from assms have "distinct (tl (urls_to_visit s))"
    by (simp add: loop_entry_distinct crawl_iter_distinct)
  then show ?thesis
    by (simp add: crawl_step_appended crawl_step_distinct)
qed

theorem enqueue_dedup_witness:
  "appended (visited_urls (crawl_step site_env 4 (crawl_iter site_env 4 (Suc 0) site_start)))
     (tl (urls_to_visit (crawl_iter site_env 4 (Suc 0) site_start)))
     (urls_to_visit (crawl_step site_env 4 (crawl_iter site_env 4 (Suc 0) site_start))) \<and>
   distinct (urls_to_visit (crawl_step site_env 4 (crawl_iter site_env 4 (Suc 0) site_start))) \<and>
   tl (urls_to_visit (crawl_iter site_env 4 (Suc 0) site_start)) = [] \<and>
   urls_to_visit (crawl_step site_env 4 (crawl_iter site_env 4 (Suc 0) site_start))
     = [''https://d.org/a#x'', ''https://d.org/a#y'']"
proof -
  have 1: "lists_set (set_order site_env)"
    by (simp add: site_parse lists_set_def)
  have "loop_cond 4 (crawl_iter site_env 4 (Suc 0) site_start)"
    unfolding site_pass1 by (simp add: loop_cond_def fcard_finsert_if)
  then have 2: "crawl_step site_env 4 (crawl_iter site_env 4 (Suc 0) site_start)
           = crawl_iter site_env 4 (Suc (Suc 0)) site_start"
    by (simp only: crawl_iter_last [of site_env 4 "Suc 0"] if_True)
  have 3: "tl (urls_to_visit (crawl_iter site_env 4 (Suc 0) site_start)) = []"
    unfolding site_pass1 by simp
  have 4: "urls_to_visit (crawl_step site_env 4 (crawl_iter site_env 4 (Suc 0) site_start))
     = [''https://d.org/a#x'', ''https://d.org/a#y'']"
    unfolding 2 site_pass2 by simp
  from enqueue_dedup [OF site_entry 1 refl, of 4 "Suc 0"] 3 4 show ?thesis
    by blast
qed

text \<open>
  C1 as stated fails: after the second pass over the small site the queue holds \<open>/a#x\<close> and
  \<open>/a#y\<close>, two entries with the same fragment-stripped form, the second of them appended
  while the first was on the queue.
\<close>

theorem queue_canonical_counterexample:
  "loop_entry site_env ''https://d.org/'' = Some site_start \<and>
   urls_to_visit (crawl_iter site_env 4 (Suc (Suc 0)) site_start)
     = [''https://d.org/a#x'', ''https://d.org/a#y''] \<and>
   map split_hash (urls_to_visit (crawl_iter site_env 4 (Suc (Suc 0)) site_start))
     = [''https://d.org/a'', ''https://d.org/a''] \<and>
   \<not> distinct (map split_hash (urls_to_visit (crawl_iter site_env 4 (Suc (Suc 0)) site_start)))"
  unfolding site_pass2 by (simp add: site_entry split_hash_def)

section \<open>A run bounded by one visit\<close>

lemma extract_links_parse: "extract_links e html u = Some links \<Longrightarrow> \<exists>soup. parse e html = Some soup"
  by (simp add: extract_links_def split: option.splits)

lemma main_bound_one:
  assumes "fetch_url e root_url = Some html" and "html \<noteq> []"
    and "extract_links e html root_url = Some links"
  shows "\<exists>title secs.
           main e root_url 1 =
             Some \<lparr>all_entries =
                     [\<lparr>e_id = ''1'', e_title = (if title \<noteq> [] then title else untitled),
                       e_url = root_url, e_text = str_content_dict secs\<rparr>],
                   visited_urls = {|split_hash root_url|},
                   urls_to_visit = links,
                   counter = 2,
                   skipped_urls = 0,
                   empty_content_urls = (if has_text secs then 0 else 1),
                   requests = [root_url, root_url]\<rparr>"
proof -
  from assms(3) obtain soup where soup: "parse e html = Some soup"
    using extract_links_parse by blast
  from extract_content_sections [OF refl assms(2) soup, of root_url] obtain title secs where
    c: "extract_content e (Some html) root_url = Content title (str_content_dict secs)"
    by blast
  let ?s0 = "(initial_state root_url)\<lparr>requests := [root_url],
               urls_to_visit := root_url # links\<rparr>"
  let ?s1 = "\<lparr>all_entries =
                     [\<lparr>e_id = ''1'', e_title = (if title \<noteq> [] then title else untitled),
                       e_url = root_url, e_text = str_content_dict secs\<rparr>],
                   visited_urls = {|split_hash root_url|},
                   urls_to_visit = links,
                   counter = 2,
                   skipped_urls = 0,
                   empty_content_urls = (if has_text secs then 0 else 1),
                   requests = [root_url, root_url]\<rparr>"
  from assms have entry: "loop_entry e root_url = Some ?s0"
    by (simp add: loop_entry_def initial_state_def)
  have cond: "loop_cond 1 ?s0"
    by (simp add: loop_cond_def initial_state_def)
  have step: "crawl_step e 1 ?s0 = ?s1"
    using assms(1,2) c
    by (simp add: crawl_step_def initial_state_def process_url_def Let_def record_page_content
        more_links_def add_entry_def fcard_finsert_if str_nat_1)
  have fin: "\<not> loop_cond 1 ?s1"
    by (simp add: loop_cond_def fcard_finsert_if)
  from cond step have it: "crawl_iter e 1 (Suc 0) ?s0 = ?s1"
    by simp
  have "\<not> loop_cond 1 (crawl_iter e 1 (Suc 0) ?s0)"
    unfolding it by (rule fin)
  from crawl_loop_iter [OF this] have "crawl_loop e 1 ?s0 = ?s1"
    unfolding it .
  with entry have "main e root_url 1 = Some ?s1"
    by (simp add: main_def)
  then show ?thesis by blast
qed

text \<open>
  C7, as the code has it. With \<open>max_urls = 1\<close>, a root page whose fetch gives a body that
  is not empty, and link extraction that does not raise on it, the run ends with one
  entry, which is the entry of the root URL with the id \<open>1\<close>; one URL is visited; and the
  queue that remains holds the links found on the root page before the loop.
\<close>

theorem bound_of_one:
  assumes "fetch_url e root_url = Some html" and "html \<noteq> []"
    and "extract_links e html root_url = Some links"
  shows "\<exists>s ent. main e root_url 1 = Some s \<and> all_entries s = [ent] \<and>
           e_url ent = root_url \<and> e_id ent = ''1'' \<and>
           visited_urls s = {|split_hash root_url|} \<and> urls_to_visit s = links"
proof -
  from main_bound_one [OF assms] obtain title secs where
    "main e root_url 1 =
             Some \<lparr>all_entries =
                     [\<lparr>e_id = ''1'', e_title = (if title \<noteq> [] then title else untitled),
                       e_url = root_url, e_text = str_content_dict secs\<rparr>],
                   visited_urls = {|split_hash root_url|},
                   urls_to_visit = links,
                   counter = 2,
                   skipped_urls = 0,
                   empty_content_urls = (if has_text secs then 0 else 1),
                   requests = [root_url, root_url]\<rparr>"
    by blast
  then show ?thesis by simp
qed

theorem bound_of_one_witness:
  "\<exists>s ent. main site_env ''https://d.org/'' 1 = Some s \<and> all_entries s = [ent] \<and>
     e_url ent = ''https://d.org/'' \<and> e_id ent = ''1'' \<and>
     visited_urls s = {|split_hash ''https://d.org/''|} \<and>
     urls_to_visit s = [''https://d.org/b'']"
proof -
  have 1: "fetch_url site_env ''https://d.org/'' = Some ''<home>''"
    by (simp add: fetch_url_def site_fetch)
  show ?thesis
    by (rule bound_of_one [OF 1 _ home_links]) simp
qed

text \<open>
  C7 as stated fails on the small site: the root page has a link to \<open>/b\<close>, and that link
  is on the queue when the run with \<open>max_urls = 1\<close> ends.
\<close>

theorem bound_of_one_queue_counterexample:
  "fetch_url site_env ''https://d.org/'' = Some ''<home>'' \<and>
   map_option urls_to_visit (main site_env ''https://d.org/'' 1) = Some [''https://d.org/b''] \<and>
   map_option urls_to_visit (main site_env ''https://d.org/'' 1) \<noteq> Some []"
proof -
  have 1: "fetch_url site_env ''https://d.org/'' = Some ''<home>''"
    by (simp add: fetch_url_def site_fetch)
  from main_bound_one [OF 1 _ home_links] 1 show ?thesis
    by auto
qed

section \<open>The requests of a run\<close>

lemma enqueue_links_requests [simp]: "requests (enqueue_links links s) = requests s"
  by (induction links arbitrary: s) (simp_all add: Let_def)

lemma more_links_requests [simp]: "requests (more_links e m html u s) = requests s"
  by (simp add: more_links_def split: option.split)

lemma add_entry_requests [simp]: "requests (add_entry t u c s) = requests s"
  by (simp add: add_entry_def)

lemma record_page_requests [simp]: "requests (record_page t c u s) = requests s"
  by (simp add: record_page_def split: option.split)

lemma process_url_requests: "requests (process_url e m u s) = requests s @ [u]"
  by (simp add: process_url_def Let_def split: option.split content_result.split)

definition loop_requests_ok :: "state \<Rightarrow> bool" where
  \<comment> \<open>the requests after the first are the URLs visited, each stripped form once\<close>
  "loop_requests_ok s =
     (distinct (map split_hash (tl (requests s))) \<and>
      fset_of_list (map split_hash (tl (requests s))) = visited_urls s \<and> requests s \<noteq> [])"

lemma crawl_step_requests_ok:
  assumes "loop_requests_ok s"
  shows "loop_requests_ok (crawl_step e m s) \<and> hd (requests (crawl_step e m s)) = hd (requests s)"
proof (cases "urls_to_visit s")
  case Nil
  with assms show ?thesis by (simp add: crawl_step_def)
next
  case (Cons u rest)
  show ?thesis
  proof (cases "u |\<in>| visited_urls s \<or> split_hash u |\<in>| visited_urls s")
    case True
    with Cons assms show ?thesis
      by (auto simp: crawl_step_def Let_def loop_requests_ok_def)
  next
    case False
    with Cons have st: "crawl_step e m s = process_url e m u (s\<lparr>urls_to_visit := rest\<rparr>)"
      by (simp add: crawl_step_def Let_def)
    from False assms have "split_hash u \<notin> set (map split_hash (tl (requests s)))"
      by (metis fset_of_list.rep_eq loop_requests_ok_def)
    with assms show ?thesis
      unfolding st
      by (auto simp: loop_requests_ok_def process_url_requests process_url_visited)
  qed
qed

lemma crawl_iter_requests_ok:
  "loop_requests_ok s \<Longrightarrow>
   loop_requests_ok (crawl_iter e m n s) \<and> hd (requests (crawl_iter e m n s)) = hd (requests s)"
proof (induction n arbitrary: s)
  case 0
  then show ?case by simp
next
  case (Suc n)
  from crawl_step_requests_ok [OF Suc.prems, of e m]
  have 1: "loop_requests_ok (crawl_step e m s)"
    and 2: "hd (requests (crawl_step e m s)) = hd (requests s)"
    by simp_all
  from Suc.IH [OF 1] 2 Suc.prems show ?case by simp
qed

lemma count_list_distinct: "distinct xs \<Longrightarrow> count_list xs u \<le> 1"
  by (induction xs) (auto simp: count_list_0_iff)

lemma requests_once:
  assumes "loop_entry e root_url = Some s0" and "s = crawl_iter e max_urls n s0"
  shows "\<exists>rs. requests s = root_url # rs \<and> distinct (map split_hash rs) \<and>
              count_list (requests s) u \<le> (if u = root_url then 2 else 1)"
proof -
  from assms(1) have r0: "requests s0 = [root_url]" and v0: "visited_urls s0 = {||}"
    by (simp_all add: loop_entry_start)
  then have "loop_requests_ok s0"
    by (simp add: loop_requests_ok_def)
  from crawl_iter_requests_ok [OF this, of e max_urls n] assms(2) r0
  have ok: "loop_requests_ok s" and hd: "hd (requests s) = root_url"
    by simp_all
  then obtain rs where rs: "requests s = root_url # rs"
    by (cases "requests s") (auto simp: loop_requests_ok_def)
  with ok have d: "distinct (map split_hash rs)"
    by (simp add: loop_requests_ok_def)
  then have "distinct rs"
    by (simp add: distinct_map)
  then have "count_list rs u \<le> 1"
    by (rule count_list_distinct)
  with rs d show ?thesis by auto
qed

text \<open>
  C9, as the code has it. The first request of a run is the fetch of the root URL before
  the loop. The requests of the loop follow it: no two of them are for the same URL, nor
  for URLs that differ only in the fragment. So a URL other than the root URL is fetched
  at most once in a run, and the root URL at most twice.
\<close>

theorem fetch_once:
  assumes "loop_entry e root_url = Some s0"
  shows "(\<exists>rs. requests (crawl_iter e max_urls n s0) = root_url # rs \<and>
            distinct (map split_hash rs) \<and>
            count_list (requests (crawl_iter e max_urls n s0)) u
              \<le> (if u = root_url then 2 else 1)) \<and>
         (\<exists>s rs. main e root_url max_urls = Some s \<and> requests s = root_url # rs \<and>
            distinct (map split_hash rs) \<and>
            count_list (requests s) u \<le> (if u = root_url then 2 else 1))"
proof -
  from main_reaches [OF assms, of max_urls 0] obtain k where
    k: "main e root_url max_urls = Some (crawl_iter e max_urls k s0)"
    by auto
  from requests_once [OF assms refl, of max_urls k u] k
  have "\<exists>s rs. main e root_url max_urls = Some s \<and> requests s = root_url # rs \<and>
            distinct (map split_hash rs) \<and>
            count_list (requests s) u \<le> (if u = root_url then 2 else 1)"
    by auto
  with requests_once [OF assms refl, of max_urls n u] show ?thesis
    by blast
qed

theorem fetch_once_witness:
  "(\<exists>rs. requests (crawl_iter site_env 4 (Suc (Suc 0)) site_start) = ''https://d.org/'' # rs \<and>
      distinct (map split_hash rs) \<and>
      count_list (requests (crawl_iter site_env 4 (Suc (Suc 0)) site_start)) ''https://d.org/b''
        \<le> (if ''https://d.org/b'' = ''https://d.org/'' then 2 else 1)) \<and>
   (\<exists>s rs. main site_env ''https://d.org/'' 4 = Some s \<and> requests s = ''https://d.org/'' # rs \<and>
      distinct (map split_hash rs) \<and>
      count_list (requests s) ''https://d.org/b''
        \<le> (if ''https://d.org/b'' = ''https://d.org/'' then 2 else 1))"
  by (rule fetch_once [OF site_entry])

text \<open>
  C9 as stated fails for the root URL. \<open>main\<close> fetches it before the loop, for its links,
  and again in the first pass of the loop, also when the first fetch has failed: on a
  site that answers no request the root URL is requested twice.
\<close>

definition down_env :: env where
  "down_env = page_env [] []"

theorem root_fetched_twice_counterexample:
  "fetch_url down_env ''https://d.org/'' = None \<and>
   map_option requests (main down_env ''https://d.org/'' 50)
     = Some [''https://d.org/'', ''https://d.org/''] \<and>
   map_option skipped_urls (main down_env ''https://d.org/'' 50) = Some 1"
proof -
  have f: "fetch down_env ''https://d.org/'' = None"
    by (simp add: down_env_def page_env_def)
  let ?s0 = "(initial_state ''https://d.org/'')\<lparr>requests := [''https://d.org/'']\<rparr>"
  let ?s1 = "\<lparr>all_entries = [], visited_urls = {|''https://d.org/''|}, urls_to_visit = [],
              counter = 1, skipped_urls = 1, empty_content_urls = 0,
              requests = [''https://d.org/'', ''https://d.org/'']\<rparr>"
  have entry: "loop_entry down_env ''https://d.org/'' = Some ?s0"
    by (simp add: loop_entry_def fetch_url_def f)
  have it: "crawl_iter down_env 50 (Suc 0) ?s0 = ?s1"
    by (simp add: initial_state_def step_defs f)
  have fin: "\<not> loop_cond 50 ?s1"
    by (simp add: loop_cond_def)
  have "\<not> loop_cond 50 (crawl_iter down_env 50 (Suc 0) ?s0)"
    unfolding it by (rule fin)
  from crawl_loop_iter [OF this] have "crawl_loop down_env 50 ?s0 = ?s1"
    unfolding it .
  with entry f show ?thesis
    by (simp add: main_def fetch_url_def)
qed

section \<open>Sections under headings\<close>

text \<open>
  The loop over the siblings of a heading, \<open>while sibling and ...\<close>, stops at a sibling
  that is false in Python, as an empty string is. Outside \<open>pre\<close> and \<open>textarea\<close> the
  tree builder gives no empty string: it turns empty data, as of the comment \<open><!---->\<close>,
  into a single space. Inside them it keeps the data as they are, and an empty comment
  is an empty string of the tree.
\<close>

fun no_empty_string :: "node \<Rightarrow> bool" where
  "no_empty_string (Tag n a cs) = list_all no_empty_string cs"
| "no_empty_string (NavigableString s) = (s \<noteq> [])"
| "no_empty_string (Comment s) = (s \<noteq> [])"
| "no_empty_string (ContainerString k s) = (s \<noteq> [])"

text \<open>
  The sections as the specification words them: one for each heading of level 1 to 4 with
  text, in document order; its text the texts of the siblings that follow the heading, up
  to the next such heading, joined by single spaces (a sibling without text gives no
  fragment), or the marker when that is empty.
\<close>

definition spec_section_text :: "node list \<Rightarrow> string" where
  "spec_section_text sibs =
     (let fragments = filter (\<lambda>t. t \<noteq> [])
                        (map (get_text [] True)
                           (takeWhile (\<lambda>sib. \<not> tag_named header_tags sib) sibs));
          joined = py_join '' '' fragments
      in if joined = [] then no_content else joined)"

definition spec_heading_sections :: "node \<Rightarrow> py_section list" where
  "spec_heading_sections region =
     map (\<lambda>hs. \<lparr>header = Some (get_text [] True (fst hs)),
                 sec_text = spec_section_text (snd hs)\<rparr>)
         (filter (\<lambda>hs. get_text [] True (fst hs) \<noteq> []) (find_all_ctx region header_tags))"

lemma no_empty_string_truthy: "no_empty_string n \<Longrightarrow> truthy n"
  by (cases n) simp_all

lemma sibling_texts_takeWhile:
  "list_all no_empty_string sibs \<Longrightarrow>
   sibling_texts sibs =
     filter (\<lambda>t. t \<noteq> [])
       (map (get_text [] True) (takeWhile (\<lambda>sib. \<not> tag_named header_tags sib) sibs))"
  by (induction sibs) (simp_all add: no_empty_string_truthy Let_def)

lemma walk_no_empty_string:
  "list_all no_empty_string cs \<Longrightarrow> hs \<in> set (walk cs) \<Longrightarrow>
   no_empty_string (fst hs) \<and> list_all no_empty_string (snd hs)"
  by (induction cs rule: walk.induct) auto

lemma descendants_ctx_no_empty_string:
  "no_empty_string n \<Longrightarrow> hs \<in> set (descendants_ctx n) \<Longrightarrow>
   no_empty_string (fst hs) \<and> list_all no_empty_string (snd hs)"
  by (cases n) (auto dest: walk_no_empty_string)

lemma header_section_spec:
  "list_all no_empty_string (snd hs) \<Longrightarrow>
   header_section hs =
     (if get_text [] True (fst hs) \<noteq> []
      then [\<lparr>header = Some (get_text [] True (fst hs)), sec_text = spec_section_text (snd hs)\<rparr>]
      else [])"
  by (simp add: header_section_def spec_section_text_def Let_def sibling_texts_takeWhile)

lemma concat_map_if:
  "concat (map (\<lambda>x. if P x then [f x] else []) xs) = map f (filter P xs)"
  by (induction xs) simp_all

lemma header_sections_spec:
  assumes "no_empty_string region"
  shows "header_sections region = spec_heading_sections region"
proof -
  have eq: "map header_section (find_all_ctx region header_tags) =
        map (\<lambda>hs. if get_text [] True (fst hs) \<noteq> []
                  then [\<lparr>header = Some (get_text [] True (fst hs)),
                         sec_text = spec_section_text (snd hs)\<rparr>]
                  else []) (find_all_ctx region header_tags)"
    using assms
    by (intro map_cong refl header_section_spec)
       (auto simp: find_all_ctx_def dest: descendants_ctx_no_empty_string)
  show ?thesis
    unfolding header_sections_def spec_heading_sections_def eq by (rule concat_map_if)
qed

lemma decompose_all_no_empty_string:
  "no_empty_string n \<Longrightarrow> no_empty_string (decompose_all names n)"
  by (induction names n rule: decompose_all.induct) (auto simp: list_all_iff)

lemma find_all_no_empty_string:
  "no_empty_string n \<Longrightarrow> d \<in> set (find_all n names) \<Longrightarrow> no_empty_string d"
  by (auto simp: find_all_def descendants_def dest: descendants_ctx_no_empty_string)

lemma py_max_mem: "py_max f b xs \<in> set (b # xs)"
  by (induction xs arbitrary: b) (auto split: if_splits)

lemma try_values_mem:
  "try_values soup tag a vs = Some el \<Longrightarrow> el \<in> set (find_all soup [tag])"
proof (induction vs)
  case Nil
  then show ?case by simp
next
  case (Cons v vs)
  show ?case
  proof (cases "filter (attr_matches a v) (find_all soup [tag])")
    case Nil
    with Cons show ?thesis by simp
  next
    case (Cons x xs)
    with Cons.prems have "el = py_max text_len x xs" by simp
    with py_max_mem [of text_len x xs] have "el \<in> set (x # xs)" by simp
    with Cons have "el \<in> set (filter (attr_matches a v) (find_all soup [tag]))" by simp
    then show ?thesis by simp
  qed
qed

lemma try_attrs_mem:
  "try_attrs soup tag as = Some el \<Longrightarrow> el \<in> set (find_all soup [tag])"
  by (induction as) (auto split: option.splits dest: try_values_mem)

lemma try_selectors_mem:
  "try_selectors soup sels = Some el \<Longrightarrow> \<exists>tag. el \<in> set (find_all soup [tag])"
proof (induction sels)
  case Nil
  then show ?case by simp
next
  case (Cons sel sels)
  obtain tag as where sel: "sel = (tag, as)" by (cases sel)
  show ?case
  proof (cases "try_attrs soup tag as")
    case None
    with Cons sel show ?thesis by simp
  next
    case (Some el')
    with Cons.prems sel have "try_attrs soup tag as = Some el" by simp
    then have "el \<in> set (find_all soup [tag])" by (rule try_attrs_mem)
    then show ?thesis by blast
  qed
qed

lemma select_main_content_no_empty_string:
  assumes "no_empty_string soup"
  shows "no_empty_string (select_main_content soup)"
proof (cases "try_selectors soup main_content_tags")
  case (Some el)
  with try_selectors_mem obtain tag where "el \<in> set (find_all soup [tag])" by blast
  with assms Some show ?thesis
    by (auto simp: select_main_content_def dest: find_all_no_empty_string)
next
  case None
  show ?thesis
  proof (cases "find_all soup [''body'']")
    case Nil
    with None assms show ?thesis
      by (simp add: select_main_content_def find_first_def)
  next
    case (Cons b bs)
    then have "b \<in> set (find_all soup [''body''])" by simp
    with assms have "no_empty_string b" by (rule find_all_no_empty_string)
    with None Cons show ?thesis
      by (simp add: select_main_content_def find_first_def)
  qed
qed

text \<open>
  On a tree without an empty string, the sections that \<open>extract_content\<close> returns for a
  page are the sections of the headings of the content region as worded above, in document
  order, whenever there is one; without a heading that has text, the result is the one
  section of the fallback.
\<close>

lemma heading_sections:
  assumes "parse e h = Some soup" and "h \<noteq> []" and "no_empty_string soup"
    and "region = select_main_content (decompose_all noise_tags soup)"
  shows "\<exists>title. extract_content e (Some h) url =
           Content title
             (str_content_dict
                (if spec_heading_sections region = [] then [fallback_section region]
                 else spec_heading_sections region))"
proof -
  from assms(3,4) have "no_empty_string region"
    by (simp add: decompose_all_no_empty_string select_main_content_no_empty_string)
  then have "header_sections region = spec_heading_sections region"
    by (rule header_sections_spec)
  with assms(1,2,4) show ?thesis
    by (simp add: extract_content_def Let_def extract_sections_cases)
qed

lemma heading_sections_example:
  "\<exists>title. extract_content site_env (Some ''<home>'') ''https://d.org/'' =
     Content title
       (str_content_dict
          [\<lparr>header = Some ''Intro'', sec_text = ''A B''\<rparr>,
           \<lparr>header = Some ''Details'', sec_text = ''C more''\<rparr>])"
proof -
  let ?region = "select_main_content (decompose_all noise_tags home_page)"
  have 1: "no_empty_string home_page"
    by (simp add: home_page_def doc_def)
  have "no_empty_string ?region"
    using 1 by (simp add: decompose_all_no_empty_string select_main_content_no_empty_string)
  then have hs: "spec_heading_sections ?region = header_sections ?region"
    by (simp add: header_sections_spec)
  have r: "?region = Tag ''body'' []
               [Tag ''h1'' [] [NavigableString ''Intro''],
                Tag ''p'' [] [NavigableString ''A''],
                Tag ''p'' [] [NavigableString ''B''],
                Tag ''h1'' [] [NavigableString ''Details''],
                Tag ''p'' [] [NavigableString ''C''],
                Tag ''a'' [(''href'', ''/b'')] [NavigableString ''more'']]"
    by (simp add: home_page_def select_main_content_def main_content_tags_def attr_matches_def
        noise_tags_def find_first_def dom_defs)
  have 2: "spec_heading_sections ?region = home_sections"
    unfolding hs unfolding r by (rule home_header_sections)
  have "\<exists>title. extract_content site_env (Some ''<home>'') ''https://d.org/'' =
           Content title
             (str_content_dict
                (if spec_heading_sections ?region = [] then [fallback_section ?region]
                 else spec_heading_sections ?region))"
    by (rule heading_sections [OF site_parse(1) _ 1 refl]) simp
  then show ?thesis
    unfolding 2 by (simp add: home_sections_def)
qed

definition pre_page :: node where
  \<comment> \<open>the document of the markup \<open><pre><h2>T</h2><!---->text</pre>\<close>\<close>
  "pre_page =
     doc [Tag ''pre'' [] [Tag ''h2'' [] [NavigableString ''T''], Comment [],
                          NavigableString ''text'']]"

definition pre_env :: env where
  "pre_env = page_env [] [(''<pre><h2>T</h2><!---->text</pre>'', pre_page)]"

text \<open>
  C6 on a page where an empty comment follows a heading inside \<open>pre\<close>: the loop over
  the siblings of the heading ends at the comment, and the text after it, which stands
  before any other heading, is not in the section; the section gets the marker instead.
\<close>

theorem empty_comment_ends_section:
  "extract_content pre_env (Some ''<pre><h2>T</h2><!---->text</pre>'') ''https://d.org/''
     = Content [] (str_content_dict
         [\<lparr>header = Some ''T'', sec_text = ''No content in this section''\<rparr>])
   \<and> select_main_content (decompose_all noise_tags pre_page) = pre_page
   \<and> header_sections pre_page
       = [\<lparr>header = Some ''T'', sec_text = ''No content in this section''\<rparr>]
   \<and> spec_heading_sections pre_page = [\<lparr>header = Some ''T'', sec_text = ''text''\<rparr>]"
proof -
  have r: "select_main_content (decompose_all noise_tags pre_page) = pre_page"
    by (simp add: pre_page_def select_main_content_def main_content_tags_def attr_matches_def
        noise_tags_def find_first_def dom_defs)
  have h: "header_sections pre_page
      = [\<lparr>header = Some ''T'', sec_text = ''No content in this section''\<rparr>]"
    by (simp add: pre_page_def content_defs dom_defs)
  have sp: "spec_heading_sections pre_page = [\<lparr>header = Some ''T'', sec_text = ''text''\<rparr>]"
    by (simp add: pre_page_def spec_heading_sections_def spec_section_text_def content_defs
        dom_defs)
  have p: "parse pre_env ''<pre><h2>T</h2><!---->text</pre>'' = Some pre_page"
    by (simp add: pre_env_def page_env_def)
  have t: "title_of pre_page = []"
    by (simp add: pre_page_def title_of_def find_first_def dom_defs)
  have "extract_content pre_env (Some ''<pre><h2>T</h2><!---->text</pre>'') ''https://d.org/''
     = Content [] (str_content_dict
         [\<lparr>header = Some ''T'', sec_text = ''No content in this section''\<rparr>])"
    by (simp add: extract_content_def p t r h extract_sections_cases no_content_def)
  with r h sp show ?thesis by simp
qed

section \<open>The entries of a run\<close>

text \<open>Reading a decimal numeral, as \<open>int(s)\<close> does for a string of digits.\<close>

definition digit_val :: "char \<Rightarrow> nat option" where
  "digit_val c = (if 48 \<le> ord c \<and> ord c \<le> 57 then Some (ord c - 48) else None)"

fun nat_of_digits :: "nat \<Rightarrow> string \<Rightarrow> nat option" where
  "nat_of_digits acc [] = Some acc"
| "nat_of_digits acc (c # cs) =
     (case digit_val c of None \<Rightarrow> None | Some d \<Rightarrow> nat_of_digits (10 * acc + d) cs)"

definition nat_of_str :: "string \<Rightarrow> nat option" where
  "nat_of_str s = (if s = [] then None else nat_of_digits 0 s)"

lemma digit_val_char_of: "d < 10 \<Longrightarrow> digit_val (char_of (48 + d)) = Some d"
  by (simp add: digit_val_def ord_def)

lemma nat_of_digits_snoc:
  "nat_of_digits acc (cs @ [c]) =
     (case nat_of_digits acc cs of
        None \<Rightarrow> None
      | Some v \<Rightarrow> map_option (\<lambda>d. 10 * v + d) (digit_val c))"
  by (induction cs arbitrary: acc) (simp_all split: option.split)

lemma nat_of_digits_str_nat: "nat_of_digits 0 (str_nat n) = Some n"
proof (induction n rule: str_nat.induct)
  case (1 n)
  show ?case
  proof (cases "n < 10")
    case True
    then show ?thesis
      by (simp add: str_nat.simps [of n] digit_val_char_of)
  next
    case False
    with 1 have "nat_of_digits 0 (str_nat (n div 10)) = Some (n div 10)" by simp
    with False show ?thesis
      by (simp add: str_nat.simps [of n] nat_of_digits_snoc digit_val_char_of)
  qed
qed

lemma str_nat_nonempty: "str_nat n \<noteq> []"
  by (simp add: str_nat.simps [of n])

lemma nat_of_str_str_nat: "nat_of_str (str_nat n) = Some n"
  by (simp add: nat_of_str_def str_nat_nonempty nat_of_digits_str_nat)

text \<open>
  The page behind an entry. \<open>page_of\<close> is the parsed page of a URL, when its fetch gives a
  body that is not empty and that the parser accepts; \<open>page_sections\<close> is the list of
  sections that \<open>extract_content\<close> computes from a parsed page.
\<close>

definition page_of :: "env \<Rightarrow> string \<Rightarrow> node option" where
  "page_of e url =
     (case fetch_url e url of
        None \<Rightarrow> None
      | Some html \<Rightarrow> if html = [] then None else parse e html)"

definition page_sections :: "node \<Rightarrow> py_section list" where
  "page_sections soup = extract_sections (select_main_content (decompose_all noise_tags soup))"

definition page_entry :: "nat \<Rightarrow> string \<Rightarrow> node \<Rightarrow> entry" where
  \<comment> \<open>the entry that \<open>main\<close> appends for the page of \<open>url\<close> when \<open>counter\<close> is \<open>k\<close>\<close>
  "page_entry k url soup =
     \<lparr>e_id = str_nat k,
      e_title = (if title_of soup \<noteq> [] then title_of soup else untitled),
      e_url = url,
      e_text = str_content_dict (page_sections soup)\<rparr>"

definition entry_ok :: "env \<Rightarrow> entry \<Rightarrow> bool" where
  \<comment> \<open>the title and the text of the entry are those of the page of its url\<close>
  "entry_ok e ent =
     (case page_of e (e_url ent) of
        None \<Rightarrow> False
      | Some soup \<Rightarrow>
          e_title ent = (if title_of soup \<noteq> [] then title_of soup else untitled) \<and>
          e_text ent = str_content_dict (page_sections soup))"

definition entries_ok :: "env \<Rightarrow> state \<Rightarrow> bool" where
  "entries_ok e s =
     (counter s = Suc (length (all_entries s)) \<and>
      map e_id (all_entries s) = map str_nat [1..<counter s] \<and>
      requests s \<noteq> [] \<and>
      list_all (entry_ok e) (all_entries s) \<and>
      map e_url (all_entries s) = filter (\<lambda>u. page_of e u \<noteq> None) (tl (requests s)))"

lemma enqueue_links_entries [simp]:
  "all_entries (enqueue_links links s) = all_entries s"
  "counter (enqueue_links links s) = counter s"
  by (induction links arbitrary: s) (simp_all add: Let_def)

lemma more_links_entries [simp]:
  "all_entries (more_links e m html u s) = all_entries s"
  "counter (more_links e m html u s) = counter s"
  by (simp_all add: more_links_def split: option.split)

lemma extract_content_cases:
  "html \<noteq> [] \<Longrightarrow>
   extract_content e (Some html) u =
     (case parse e html of
        None \<Rightarrow> Raised
      | Some soup \<Rightarrow> Content (title_of soup) (str_content_dict (page_sections soup)))"
  by (simp add: extract_content_def page_sections_def Let_def split: option.split)

lemma process_url_entries:
  "all_entries (process_url e m u s) =
     (case page_of e u of
        None \<Rightarrow> all_entries s
      | Some soup \<Rightarrow> all_entries s @ [page_entry (counter s) u soup])"
  "counter (process_url e m u s) =
     (case page_of e u of None \<Rightarrow> counter s | Some soup \<Rightarrow> Suc (counter s))"
  by (simp_all add: process_url_def page_of_def Let_def extract_content_cases
      record_page_content add_entry_def page_entry_def split: option.split)

lemma page_entry_ok: "page_of e u = Some soup \<Longrightarrow> entry_ok e (page_entry k u soup)"
  by (simp add: entry_ok_def page_entry_def)

lemma process_url_entries_ok:
  assumes "entries_ok e s"
  shows "entries_ok e (process_url e m u s)"
proof -
  from assms have r: "tl (requests s @ [u]) = tl (requests s) @ [u]"
    by (simp add: entries_ok_def)
  show ?thesis
  proof (cases "page_of e u")
    case None
    with assms r show ?thesis
      by (simp add: entries_ok_def process_url_entries process_url_requests)
  next
    case (Some soup)
    with assms r page_entry_ok [OF Some] show ?thesis
      by (simp add: entries_ok_def process_url_entries process_url_requests page_entry_def)
  qed
qed

lemma crawl_step_entries_ok: "entries_ok e s \<Longrightarrow> entries_ok e (crawl_step e m s)"
proof -
  assume ok: "entries_ok e s"
  have "entries_ok e (s\<lparr>urls_to_visit := q\<rparr>)" for q
    using ok by (simp add: entries_ok_def)
  with ok show ?thesis
    by (auto simp: crawl_step_def Let_def process_url_entries_ok split: list.split)
qed

lemma crawl_iter_entries_ok: "entries_ok e s \<Longrightarrow> entries_ok e (crawl_iter e m n s)"
  by (induction n arbitrary: s) (simp_all add: crawl_step_entries_ok)

lemma loop_entry_entries_ok: "loop_entry e root_url = Some s0 \<Longrightarrow> entries_ok e s0"
  by (simp add: entries_ok_def loop_entry_start)

text \<open>
  C8. Every entry of the list with which \<open>main\<close> ends has as its id the decimal numeral of
  its position, counted from 1, which reads back as that number. Its url is the URL, as it
  stood on the queue, of a request of the loop; and the urls of the entries are, in
  order, the URLs requested in the loop whose page was fetched and parsed. Its title is
  the title of that page, or the placeholder. Its text is the text form of the sections
  that \<open>extract_content\<close> computes for that page, and \<open>eval\<close> reads these same sections
  back from it.
\<close>

theorem record_shape:
  assumes "main e root_url max_urls = Some s" and "i < length (all_entries s)"
  shows "e_id (all_entries s ! i) = str_nat (i + 1) \<and>
         nat_of_str (e_id (all_entries s ! i)) = Some (i + 1) \<and>
         e_title (all_entries s ! i) \<noteq> [] \<and>
         e_url (all_entries s ! i) \<in> set (tl (requests s)) \<and>
         map e_url (all_entries s) = filter (\<lambda>u. page_of e u \<noteq> None) (tl (requests s)) \<and>
         (\<exists>html soup.
            fetch_url e (e_url (all_entries s ! i)) = Some html \<and> html \<noteq> [] \<and>
            parse e html = Some soup \<and>
            extract_content e (Some html) (e_url (all_entries s ! i))
              = Content (title_of soup) (e_text (all_entries s ! i)) \<and>
            e_title (all_entries s ! i)
              = (if title_of soup \<noteq> [] then title_of soup else untitled) \<and>
            e_text (all_entries s ! i) = str_content_dict (page_sections soup) \<and>
            eval_content (e_text (all_entries s ! i)) = Some (page_sections soup))"
proof -
  let ?ent = "all_entries s ! i"
  from assms(1) obtain s0 where s0: "loop_entry e root_url = Some s0"
    by (auto simp: main_def)
  from main_reaches [OF s0, of max_urls 0] assms(1) obtain k where
    "s = crawl_iter e max_urls k s0"
    by auto
  with s0 have ok: "entries_ok e s"
    by (simp add: loop_entry_entries_ok crawl_iter_entries_ok)
  have "e_id ?ent = map e_id (all_entries s) ! i"
    using assms(2) by simp
  also have "\<dots> = map str_nat [1..<counter s] ! i"
    using ok by (simp add: entries_ok_def)
  also have "\<dots> = str_nat (i + 1)"
    using ok assms(2) by (simp add: entries_ok_def del: upt_Suc)
  finally have id: "e_id ?ent = str_nat (i + 1)" .
  from ok have urls: "map e_url (all_entries s)
      = filter (\<lambda>u. page_of e u \<noteq> None) (tl (requests s))"
    by (simp add: entries_ok_def)
  have "e_url ?ent \<in> set (map e_url (all_entries s))"
    using assms(2) by simp
  with urls have mem: "e_url ?ent \<in> set (tl (requests s))"
    by simp
  from ok assms(2) have "entry_ok e ?ent"
    by (simp add: entries_ok_def list_all_length)
  then obtain soup where soup: "page_of e (e_url ?ent) = Some soup"
    and ti: "e_title ?ent = (if title_of soup \<noteq> [] then title_of soup else untitled)"
    and tx: "e_text ?ent = str_content_dict (page_sections soup)"
    by (auto simp: entry_ok_def split: option.splits)
  from soup obtain html where html: "fetch_url e (e_url ?ent) = Some html" "html \<noteq> []"
    "parse e html = Some soup"
    by (auto simp: page_of_def split: option.splits if_splits)
  from html tx have ec: "extract_content e (Some html) (e_url ?ent)
      = Content (title_of soup) (e_text ?ent)"
    by (simp add: extract_content_cases)
  from tx have ev: "eval_content (e_text ?ent) = Some (page_sections soup)"
    by (simp add: eval_content_str)
  from ti have ne: "e_title ?ent \<noteq> []"
    by (simp add: untitled_def)
  from id have "nat_of_str (e_id ?ent) = Some (i + 1)"
    by (simp add: nat_of_str_str_nat)
  with id ne mem urls html ec ti tx ev show ?thesis
    by blast
qed

definition site_final :: state where
  "site_final =
     \<lparr>all_entries = [home_entry, b_entry, a_entry],
      visited_urls = {|''https://d.org/a'', ''https://d.org/b'', ''https://d.org/''|},
      urls_to_visit = [],
      counter = 4, skipped_urls = 0, empty_content_urls = 1,
      requests = [''https://d.org/'', ''https://d.org/'', ''https://d.org/b'',
                  ''https://d.org/a#x'']\<rparr>"

lemma site_main_final: "main site_env ''https://d.org/'' 4 = Some site_final"
  unfolding site_final_def by (rule site_main)

theorem record_shape_witness:
  "(e_id (all_entries site_final ! 2) = str_nat (2 + 1) \<and>
    nat_of_str (e_id (all_entries site_final ! 2)) = Some (2 + 1) \<and>
    e_title (all_entries site_final ! 2) \<noteq> [] \<and>
    e_url (all_entries site_final ! 2) \<in> set (tl (requests site_final)) \<and>
    map e_url (all_entries site_final)
      = filter (\<lambda>u. page_of site_env u \<noteq> None) (tl (requests site_final)) \<and>
    (\<exists>html soup.
       fetch_url site_env (e_url (all_entries site_final ! 2)) = Some html \<and> html \<noteq> [] \<and>
       parse site_env html = Some soup \<and>
       extract_content site_env (Some html) (e_url (all_entries site_final ! 2))
         = Content (title_of soup) (e_text (all_entries site_final ! 2)) \<and>
       e_title (all_entries site_final ! 2)
         = (if title_of soup \<noteq> [] then title_of soup else untitled) \<and>
       e_text (all_entries site_final ! 2) = str_content_dict (page_sections soup) \<and>
       eval_content (e_text (all_entries site_final ! 2)) = Some (page_sections soup))) \<and>
   e_url (all_entries site_final ! 2) = ''https://d.org/a#x'' \<and>
   page_sections a_page = [\<lparr>header = None, sec_text = ''inside''\<rparr>]"
proof -
  have "e_url (all_entries site_final ! 2) = ''https://d.org/a#x''"
    by (simp add: site_final_def a_entry_def)
  moreover have "page_sections a_page = [\<lparr>header = None, sec_text = ''inside''\<rparr>]"
    by (simp add: page_sections_def a_page_def content_defs dom_defs)
  moreover have "2 < length (all_entries site_final)"
    by (simp add: site_final_def)
  ultimately show ?thesis
    using record_shape [OF site_main_final, of 2] by blast
qed

end
